theory Spec2Isabelle
  imports Main "HOL-Library.Sublist" "HOL-Library.AList"
begin

section \<open>Python values\<close>

text \<open>
  A Python \<^verbatim>\<open>str\<close> is a sequence of Unicode code points, so it is modelled as a list of
  natural numbers; \<open>len\<close> is \<open>length\<close>.  ASCII literals of the source are written
  \<open>ustr ''...''\<close>.
\<close>

type_synonym ustring = "nat list"

definition ustr :: "string \<Rightarrow> ustring" where
  "ustr s = map of_char s"

text \<open>\<^verbatim>\<open>pat in s\<close> for strings: \<open>pat\<close> occurs as a contiguous substring of \<open>s\<close>.\<close>

fun str_contains :: "ustring \<Rightarrow> ustring \<Rightarrow> bool" where
  "str_contains pat [] = (pat = [])"
| "str_contains pat (c # cs) = (prefix pat (c # cs) \<or> str_contains pat cs)"

text \<open>
  \<^verbatim>\<open>s.replace(old, "")\<close>: every non-overlapping occurrence of \<open>old\<close>, found from left to
  right, is deleted.  (With an empty \<open>old\<close> Python inserts the empty replacement between
  the characters, which changes nothing.)
\<close>

function str_remove :: "ustring \<Rightarrow> ustring \<Rightarrow> ustring" where
  "str_remove old [] = []"
| "str_remove old (c # cs) =
     (if old \<noteq> [] \<and> prefix old (c # cs)
      then str_remove old (drop (length old) (c # cs))
      else c # str_remove old cs)"
  by pat_completeness auto
termination
  by (relation "measure (\<lambda>(old, s). length s)") (auto simp: neq_Nil_conv)

text \<open>The exceptions of the source that the model distinguishes.\<close>

datatype py_error =
    OSError
  | JSONDecodeError
  | IndexError
  | ValueError
  | FileNotFoundError
  | PlaywrightError ustring

type_synonym timestamp = nat

section \<open>Registry (\<^verbatim>\<open>load_registry\<close>, \<^verbatim>\<open>save_registry\<close>, \<^verbatim>\<open>filter_new_urls\<close>)\<close>

record registry_entry =
  entry_title :: ustring
  entry_source :: ustring
  entry_source_file :: ustring
  entry_scraped_at :: timestamp
  entry_archive_path :: ustring

text \<open>
  The registry is the dictionary \<^verbatim>\<open>{"scraped_urls": {...}, "last_updated": ...}\<close>.  The inner
  dictionary is an association list in insertion order, read with \<open>map_of\<close>.
\<close>

record registry =
  scraped_urls :: "(ustring \<times> registry_entry) list"
  last_updated :: "timestamp option"

text \<open>
  The durable form \<^verbatim>\<open>scraped_urls.json\<close>: the file is absent, or opening and decoding it
  raises (it cannot be read, or \<^verbatim>\<open>json.load\<close> rejects its text), or it decodes to a registry.
\<close>

datatype registry_file =
    No_file
  | Bad_file py_error
  | Json_file registry

definition empty_registry :: registry where
  "empty_registry = \<lparr>scraped_urls = [], last_updated = None\<rparr>"

text \<open>
  \<^verbatim>\<open>load_registry\<close> tests \<^verbatim>\<open>REGISTRY_FILE.exists()\<close> and then calls \<^verbatim>\<open>open\<close> and
  \<^verbatim>\<open>json.load\<close> with no handler around them, so what they raise leaves the function.
\<close>

fun load_registry :: "registry_file \<Rightarrow> py_error + registry" where
  "load_registry No_file = Inr empty_registry"
| "load_registry (Bad_file e) = Inl e"
| "load_registry (Json_file r) = Inr r"

definition save_registry :: "timestamp \<Rightarrow> registry \<Rightarrow> registry \<times> registry_file" where
  "save_registry now r =
     (let r' = r\<lparr>last_updated := Some now\<rparr> in (r', Json_file r'))"

section \<open>Candidates and the domain partitioner (\<^verbatim>\<open>get_domain\<close>, \<^verbatim>\<open>group_urls_by_domain\<close>)\<close>

text \<open>A candidate is the dictionary \<^verbatim>\<open>{"title", "url", "source_file", "source"}\<close>.\<close>

record url_info =
  title :: ustring
  url :: ustring
  source_file :: ustring
  source :: ustring

text \<open>
  \<^verbatim>\<open>urlparse(url).netloc\<close> as \<^verbatim>\<open>urllib.parse\<close> computes it: the text before the first colon
  is split off as the scheme when it starts with an ASCII letter and consists of scheme
  characters; when the rest starts with \<^verbatim>\<open>//\<close>, the netloc runs up to the first of
  \<^verbatim>\<open>/\<close>, \<^verbatim>\<open>?\<close>, \<^verbatim>\<open>#\<close>, otherwise it is empty.  (The library's removal of tab and newline
  characters and its rejection of unbalanced brackets are not modelled.)
\<close>

definition ascii_alpha :: "nat \<Rightarrow> bool" where
  "ascii_alpha c = ((97 \<le> c \<and> c \<le> 122) \<or> (65 \<le> c \<and> c \<le> 90))"

definition scheme_char :: "nat \<Rightarrow> bool" where
  "scheme_char c = (ascii_alpha c \<or> (48 \<le> c \<and> c \<le> 57) \<or> c = 43 \<or> c = 45 \<or> c = 46)"

definition after_scheme :: "ustring \<Rightarrow> ustring" where
  "after_scheme u =
     (let pre = takeWhile (\<lambda>c. c \<noteq> 58) u in
      if 58 \<in> set u \<and> pre \<noteq> [] \<and> ascii_alpha (hd pre) \<and> list_all scheme_char pre
      then drop (Suc (length pre)) u
      else u)"

definition urlparse_netloc :: "ustring \<Rightarrow> ustring" where
  "urlparse_netloc u =
     (let rest = after_scheme u in
      if take 2 rest = ustr ''//''
      then takeWhile (\<lambda>c. c \<noteq> 47 \<and> c \<noteq> 63 \<and> c \<noteq> 35) (drop 2 rest)
      else [])"

definition get_domain :: "ustring \<Rightarrow> ustring" where
  "get_domain u = str_remove (ustr ''www.'') (urlparse_netloc u)"

text \<open>
  \<^verbatim>\<open>grouped[domain].append(url_info)\<close> on a \<^verbatim>\<open>defaultdict(list)\<close>: the dictionary keeps its
  keys in the order of their first insertion.
\<close>

fun group_append :: "ustring \<Rightarrow> url_info \<Rightarrow> (ustring \<times> url_info list) list
    \<Rightarrow> (ustring \<times> url_info list) list" where
  "group_append d u [] = [(d, [u])]"
| "group_append d u ((d', us) # g) =
     (if d' = d then (d', us @ [u]) # g else (d', us) # group_append d u g)"

definition group_urls_by_domain :: "url_info list \<Rightarrow> (ustring \<times> url_info list) list" where
  "group_urls_by_domain urls = foldl (\<lambda>g u. group_append (get_domain (url u)) u g) [] urls"

text \<open>\<^verbatim>\<open>filter_new_urls\<close>: the candidates whose URL is not a key of \<^verbatim>\<open>scraped_urls\<close>.\<close>

definition filter_new_urls :: "url_info list \<Rightarrow> registry \<Rightarrow> url_info list" where
  "filter_new_urls urls r = filter (\<lambda>u. map_of (scraped_urls r) (url u) = None) urls"

section \<open>Slugs (\<^verbatim>\<open>slugify\<close>)\<close>

text \<open>
  \<^verbatim>\<open>slugify\<close> consults Python's Unicode database four times: \<^verbatim>\<open>unicodedata.normalize("NFKD", _)\<close>,
  \<^verbatim>\<open>str.lower\<close>, and the regular-expression classes \<^verbatim>\<open>\w\<close> and \<^verbatim>\<open>\s\<close>.  The database is
  a parameter of the model.
\<close>

record unicode_db =
  nfkd :: "ustring \<Rightarrow> ustring"
  lower :: "ustring \<Rightarrow> ustring"
  is_word :: "nat \<Rightarrow> bool"
  is_space :: "nat \<Rightarrow> bool"

text \<open>\<^verbatim>\<open>re.sub(r"[^\w\s-]", "", text)\<close> keeps the word characters, the white space and the hyphens.\<close>

definition keep_word_space_hyphen :: "unicode_db \<Rightarrow> ustring \<Rightarrow> ustring" where
  "keep_word_space_hyphen db s = filter (\<lambda>c. is_word db c \<or> is_space db c \<or> c = 45) s"

text \<open>\<^verbatim>\<open>re.sub(r"[-\s]+", "-", text)\<close> turns every maximal run of hyphens and white space into one hyphen.\<close>

function collapse_runs :: "unicode_db \<Rightarrow> ustring \<Rightarrow> ustring" where
  "collapse_runs db [] = []"
| "collapse_runs db (c # cs) =
     (if c = 45 \<or> is_space db c
      then 45 # collapse_runs db (dropWhile (\<lambda>d. d = 45 \<or> is_space db d) cs)
      else c # collapse_runs db cs)"
  by pat_completeness auto
termination
  by (relation "measure (\<lambda>(db, s). length s)") (auto simp: less_Suc_eq_le length_dropWhile_le)

text \<open>\<^verbatim>\<open>text.strip("-")\<close>.\<close>

definition strip_hyphens :: "ustring \<Rightarrow> ustring" where
  "strip_hyphens s = rev (dropWhile (\<lambda>c. c = 45) (rev (dropWhile (\<lambda>c. c = 45) s)))"

text \<open>\<^verbatim>\<open>text[:n]\<close> for an integer \<open>n\<close>: a negative \<open>n\<close> counts from the end.\<close>

definition slice_to :: "'a list \<Rightarrow> int \<Rightarrow> 'a list" where
  "slice_to s n = (if 0 \<le> n then take (nat n) s else take (length s - nat (- n)) s)"

text \<open>\<^verbatim>\<open>text.rsplit("-", 1)[0]\<close>: the part before the last hyphen, or all of it when there is none.\<close>

definition rsplit_head :: "ustring \<Rightarrow> ustring" where
  "rsplit_head s = (if 45 \<in> set s then rev (tl (dropWhile (\<lambda>c. c \<noteq> 45) (rev s))) else s)"

text \<open>The first five statements of \<^verbatim>\<open>slugify\<close>: the text before it is cut to length.\<close>

definition normalize_title :: "unicode_db \<Rightarrow> ustring \<Rightarrow> ustring" where
  "normalize_title db text =
     (let t1 = nfkd db text;
          t2 = lower db t1;
          t3 = keep_word_space_hyphen db t2;
          t4 = collapse_runs db t3
      in strip_hyphens t4)"

definition slugify :: "unicode_db \<Rightarrow> ustring \<Rightarrow> int \<Rightarrow> ustring" where
  "slugify db text max_length =
     (let t5 = normalize_title db text;
          t6 = (if int (length t5) > max_length then rsplit_head (slice_to t5 max_length) else t5)
      in if t6 = [] then ustr ''untitled'' else t6)"

text \<open>
  What the slug is said to look like: no two hyphens in a row, and every character a hyphen
  or a word character that \<^verbatim>\<open>lower\<close> leaves alone.
\<close>

fun single_hyphens :: "ustring \<Rightarrow> bool" where
  "single_hyphens (a # b # cs) = (\<not> (a = 45 \<and> b = 45) \<and> single_hyphens (b # cs))"
| "single_hyphens cs = True"

definition slug_char :: "unicode_db \<Rightarrow> nat \<Rightarrow> bool" where
  "slug_char db c = (c = 45 \<or> (is_word db c \<and> lower db [c] = [c]))"

text \<open>
  Two facts of Python's database that the shape of a slug rests on: a character produced by
  \<^verbatim>\<open>lower\<close> is left alone by \<^verbatim>\<open>lower\<close>, and the letters of \<^verbatim>\<open>untitled\<close> are lower-case
  word characters.
\<close>

definition lower_stable :: "unicode_db \<Rightarrow> bool" where
  "lower_stable db =
     ((\<forall>s. list_all (\<lambda>c. lower db [c] = [c]) (lower db s))
      \<and> list_all (\<lambda>c. is_word db c \<and> lower db [c] = [c]) (ustr ''untitled''))"

text \<open>
  Python's database on ASCII text, where NFKD changes nothing, \<^verbatim>\<open>lower\<close> maps \<^verbatim>\<open>A-Z\<close> to
  \<^verbatim>\<open>a-z\<close>, \<^verbatim>\<open>\w\<close> is \<^verbatim>\<open>[A-Za-z0-9_]\<close> and \<^verbatim>\<open>\s\<close> is tab, line feed, vertical tab, form feed,
  carriage return, the separators \<^verbatim>\<open>0x1c-0x1f\<close> and the space.  It serves as the concrete
  database of the examples.
\<close>

definition ascii_lower :: "nat \<Rightarrow> nat" where
  "ascii_lower c = (if 65 \<le> c \<and> c \<le> 90 then c + 32 else c)"

definition ascii_db :: unicode_db where
  "ascii_db = \<lparr>nfkd = (\<lambda>s. s), lower = map ascii_lower,
     is_word = (\<lambda>c. ascii_alpha c \<or> (48 \<le> c \<and> c \<le> 57) \<or> c = 95),
     is_space = (\<lambda>c. (9 \<le> c \<and> c \<le> 13) \<or> (28 \<le> c \<and> c \<le> 32))\<rparr>"

section \<open>Archive store (\<^verbatim>\<open>get_existing_archive_url\<close>, \<^verbatim>\<open>save_archive\<close>)\<close>

text \<open>The dictionary written to \<^verbatim>\<open>metadata.json\<close>.\<close>

record metadata =
  meta_url :: ustring
  meta_title :: ustring
  meta_source :: ustring
  meta_source_file :: ustring
  meta_scraped_at :: timestamp
  meta_archive_path :: ustring

text \<open>
  An article directory holds \<^verbatim>\<open>index.html\<close> and \<^verbatim>\<open>metadata.json\<close>, each possibly missing;
  \<open>None\<close> for the metadata also stands for a file that does not decode or has no \<^verbatim>\<open>url\<close>.
  A directory is named by the source directory (under \<^verbatim>\<open>content/news\<close>) and its own name
  under \<^verbatim>\<open>archive/\<close>; the file system is the finite list of the directories that exist.
\<close>

record folder =
  index_html :: "ustring option"
  metadata_json :: "metadata option"

type_synonym path = "ustring \<times> ustring"

type_synonym archive = "(path \<times> folder) list"

definition dir_exists :: "archive \<Rightarrow> path \<Rightarrow> bool" where
  "dir_exists fs p = (map_of fs p \<noteq> None)"

definition get_existing_archive_url :: "archive \<Rightarrow> path \<Rightarrow> ustring option" where
  "get_existing_archive_url fs p =
     (case map_of fs p of
        None \<Rightarrow> None
      | Some f \<Rightarrow> (case metadata_json f of None \<Rightarrow> None | Some m \<Rightarrow> Some (meta_url m)))"

text \<open>\<^verbatim>\<open>str(counter)\<close>: the decimal digits of a natural number.\<close>

function str_nat :: "nat \<Rightarrow> ustring" where
  "str_nat n = (if n < 10 then [48 + n] else str_nat (n div 10) @ [48 + n mod 10])"
  by pat_completeness auto
termination
  by (relation "measure (\<lambda>n. n)") auto

declare str_nat.simps [simp del]

text \<open>\<^verbatim>\<open>archive_dir / f"{slug}-{counter}"\<close>.\<close>

definition suffixed :: "ustring \<Rightarrow> ustring \<Rightarrow> nat \<Rightarrow> path" where
  "suffixed source_dir slug counter = (source_dir, slug @ 45 # str_nat counter)"

text \<open>\<^verbatim>\<open>article_dir.relative_to(PROJECT_ROOT).as_posix()\<close>.\<close>

definition posix_path :: "path \<Rightarrow> ustring" where
  "posix_path p = ustr ''content/news/'' @ fst p @ ustr ''/archive/'' @ snd p"

lemma str_nat_not_Nil: "str_nat n \<noteq> []"
  by (simp add: str_nat.simps[of n])

lemma str_nat_inj: "str_nat m = str_nat n \<Longrightarrow> m = n"
proof (induction m arbitrary: n rule: str_nat.induct)
  case (1 m)
  show ?case
  proof (cases "m < 10")
    case True
    note m = this
    show ?thesis
    proof (cases "n < 10")
      case True
      with m "1.prems" show ?thesis by (simp add: str_nat.simps[of m] str_nat.simps[of n])
    next
      case False
      with m "1.prems" have "[48 + m] = str_nat (n div 10) @ [48 + n mod 10]"
        by (simp add: str_nat.simps[of m] str_nat.simps[of n])
      then have "str_nat (n div 10) = []" by simp
      with str_nat_not_Nil show ?thesis by blast
    qed
  next
    case False
    note m = this
    show ?thesis
    proof (cases "n < 10")
      case True
      with m "1.prems" have "str_nat (m div 10) @ [48 + m mod 10] = [48 + n]"
        by (simp add: str_nat.simps[of m] str_nat.simps[of n])
      then have "str_nat (m div 10) = []" by simp
      with str_nat_not_Nil show ?thesis by blast
    next
      case False
      with m "1.prems" have "str_nat (m div 10) @ [48 + m mod 10] = str_nat (n div 10) @ [48 + n mod 10]"
        by (simp add: str_nat.simps[of m] str_nat.simps[of n])
      then have e: "str_nat (m div 10) = str_nat (n div 10)" and d: "m mod 10 = n mod 10"
        by simp_all
      from "1.IH"[OF m e] have "m div 10 = n div 10" .
      with d have "10 * (m div 10) + m mod 10 = 10 * (n div 10) + n mod 10" by simp
      then show ?thesis by simp
    qed
  qed
qed

lemma finite_suffixes: "finite {k. dir_exists fs (suffixed sd slug k)}"
proof -
  have "inj (suffixed sd slug)"
    by (auto simp: inj_def suffixed_def dest: str_nat_inj)
  moreover have "finite (fst ` set fs)" by simp
  ultimately have "finite (suffixed sd slug -` (fst ` set fs))" by (intro finite_vimageI)
  moreover have "{k. dir_exists fs (suffixed sd slug k)} = suffixed sd slug -` (fst ` set fs)"
    by (simp add: dir_exists_def map_of_eq_None_iff vimage_def)
  ultimately show ?thesis by simp
qed

text \<open>
  The loop \<^verbatim>\<open>while (archive_dir / f"{slug}-{counter}").exists()\<close> of \<^verbatim>\<open>save_archive\<close>: it
  returns the directory it stops at and whether that directory is new.  It stops because
  the directories are finitely many and the names \<^verbatim>\<open>slug-1\<close>, \<^verbatim>\<open>slug-2\<close>, ... all differ.
\<close>

function probe :: "archive \<Rightarrow> ustring \<Rightarrow> ustring \<Rightarrow> ustring \<Rightarrow> nat \<Rightarrow> path \<times> bool" where
  "probe fs sd slug u counter =
     (if dir_exists fs (suffixed sd slug counter)
      then (if get_existing_archive_url fs (suffixed sd slug counter) = Some u
            then (suffixed sd slug counter, False)
            else probe fs sd slug u (counter + 1))
      else (suffixed sd slug counter, True))"
  by pat_completeness auto
termination
proof (relation "measure (\<lambda>(fs, sd, slug, u, c). card {k. c \<le> k \<and> dir_exists fs (suffixed sd slug k)})")
  show "wf (measure (\<lambda>(fs, sd, slug, u, c). card {k. c \<le> k \<and> dir_exists fs (suffixed sd slug k)}))"
    by simp
next
  fix fs :: archive and sd slug u :: ustring and counter :: nat
  assume ex: "dir_exists fs (suffixed sd slug counter)"
  let ?A = "{k. counter \<le> k \<and> dir_exists fs (suffixed sd slug k)}"
  let ?B = "{k. counter + 1 \<le> k \<and> dir_exists fs (suffixed sd slug k)}"
  have fin: "finite ?A" using finite_suffixes[of fs sd slug] by (rule rev_finite_subset) auto
  have "?B \<subseteq> ?A" by auto
  moreover have "counter \<in> ?A" using ex by simp
  moreover have "counter \<notin> ?B" by simp
  ultimately have "?B \<subset> ?A" by blast
  with fin have "card ?B < card ?A" by (rule psubset_card_mono)
  then show "((fs, sd, slug, u, counter + 1), (fs, sd, slug, u, counter))
      \<in> measure (\<lambda>(fs, sd, slug, u, c). card {k. c \<le> k \<and> dir_exists fs (suffixed sd slug k)})"
    by simp
qed

declare probe.simps [simp del]

text \<open>
  \<^verbatim>\<open>article_dir.mkdir(exist_ok=True)\<close> followed by the two writes: the directory holds the
  page and the metadata afterwards.
\<close>

definition write_article :: "unicode_db \<Rightarrow> url_info \<Rightarrow> ustring \<Rightarrow> timestamp \<Rightarrow> path
    \<Rightarrow> archive \<Rightarrow> archive" where
  "write_article db u html now p fs =
     AList.update p
       \<lparr>index_html = Some html,
        metadata_json = Some \<lparr>meta_url = url u, meta_title = title u,
          meta_source = lower db (source u), meta_source_file = source_file u,
          meta_scraped_at = now, meta_archive_path = posix_path p\<rparr>\<rparr> fs"

definition save_archive :: "unicode_db \<Rightarrow> url_info \<Rightarrow> ustring \<Rightarrow> ustring \<Rightarrow> timestamp
    \<Rightarrow> archive \<Rightarrow> (path \<times> bool) \<times> archive" where
  "save_archive db u html source_dir now fs =
     (let slug = slugify db (title u) 80;
          article_dir = (source_dir, slug)
      in if dir_exists fs article_dir
         then (if get_existing_archive_url fs article_dir = Some (url u)
               then ((article_dir, False), fs)
               else (case probe fs source_dir slug (url u) 1 of
                       (p, False) \<Rightarrow> ((p, False), fs)
                     | (p, True) \<Rightarrow> ((p, True), write_article db u html now p fs)))
         else ((article_dir, True), write_article db u html now article_dir fs))"

section \<open>Configuration (\<^verbatim>\<open>get_site_config\<close>)\<close>

record site_config =
  delay_seconds :: int
  max_retries :: int
  timeout_seconds :: int

text \<open>An entry of \<^verbatim>\<open>config["sites"]\<close> may set any of the three values.\<close>

record site_entry =
  site_delay_seconds :: "int option"
  site_max_retries :: "int option"
  site_timeout_seconds :: "int option"

record config =
  rate_limit :: site_config
  user_agent :: ustring
  sites :: "(ustring \<times> site_entry) list"

definition get_site_config :: "ustring \<Rightarrow> config \<Rightarrow> site_config" where
  "get_site_config u cfg =
     (let domain = get_domain u;
          site = (case map_of (sites cfg) domain of
                    None \<Rightarrow> \<lparr>site_delay_seconds = None, site_max_retries = None,
                              site_timeout_seconds = None\<rparr>
                  | Some e \<Rightarrow> e)
      in \<lparr>delay_seconds = (case site_delay_seconds site of
                               None \<Rightarrow> delay_seconds (rate_limit cfg) | Some d \<Rightarrow> d),
          max_retries = (case site_max_retries site of
                               None \<Rightarrow> max_retries (rate_limit cfg) | Some m \<Rightarrow> m),
          timeout_seconds = (case site_timeout_seconds site of
                               None \<Rightarrow> timeout_seconds (rate_limit cfg) | Some t \<Rightarrow> t)\<rparr>)"

section \<open>The run's state and its environment\<close>

text \<open>The fetch tactics, named by their \<^verbatim>\<open>desc\<close>.\<close>

datatype strategy = Domcontentloaded | Networkidle | No_http2 | Requests_fallback | Uc_fallback

text \<open>
  What the network and the browser do at one fetch attempt.  For the three rendering
  tactics: \<open>Content\<close> is what \<^verbatim>\<open>page.content()\<close> returns; \<open>Timeout\<close> is a \<^verbatim>\<open>PlaywrightTimeout\<close>
  raised inside the \<^verbatim>\<open>try\<close> block; \<open>Failure\<close> is any other exception raised there, with
  its message; \<open>No_page\<close> is \<^verbatim>\<open>use_context.new_page()\<close> raising, before the \<^verbatim>\<open>try\<close> block.
  For \<^verbatim>\<open>requests\<close>: \<open>Content\<close> is \<^verbatim>\<open>response.text\<close>, everything else an exception of
  \<^verbatim>\<open>requests.get\<close> or \<^verbatim>\<open>raise_for_status\<close>.  For the Chrome driver: \<open>Content\<close> is the
  element's \<^verbatim>\<open>innerHTML\<close>; \<open>No_page\<close> is \<^verbatim>\<open>uc.Chrome(...)\<close> raising, so that no driver
  exists; \<open>Timeout\<close> and \<open>Failure\<close> are \<^verbatim>\<open>driver.get\<close> or the wait raising.
\<close>

datatype outcome = Content ustring | Timeout | Failure ustring | No_page ustring

text \<open>
  The environment of a run: the outcome of the \<open>n\<close>-th fetch attempt, whether
  \<^verbatim>\<open>browser.new_context\<close> raises at that attempt, the clock, and the names of the directories
  under \<^verbatim>\<open>content/news\<close>.
\<close>

record world =
  attempt :: "nat \<Rightarrow> outcome"
  new_context_fails :: "nat \<Rightarrow> bool"
  clock :: "nat \<Rightarrow> timestamp"
  news_dirs :: "ustring list"

text \<open>What a run does that can be observed from outside, in order.\<close>

datatype event =
    New_context
  | Close_context
  | New_page
  | Close_page
  | New_driver
  | Close_driver
  | Fetch strategy ustring
  | Backoff nat
  | Politeness int

text \<open>
  The state threaded through a run: the number of fetch attempts made, the events so far,
  the archive directories, the registry file, and the run's in-memory objects, namely the
  \<^verbatim>\<open>registry\<close> dictionary and the \<^verbatim>\<open>results\<close> dictionary.
\<close>

record state =
  tick :: nat
  trace :: "event list"
  dirs :: archive
  reg_file :: registry_file
  reg :: registry
  success :: nat
  failed :: nat
  failed_urls :: "ustring list"

definition emit :: "event \<Rightarrow> state \<Rightarrow> state" where
  "emit e s = s\<lparr>trace := trace s @ [e]\<rparr>"

section \<open>Fetcher (\<^verbatim>\<open>scrape_with_requests\<close>, \<^verbatim>\<open>scrape_with_uc_inmedia\<close>, \<^verbatim>\<open>scrape_url_async\<close>)\<close>

definition scrape_with_requests :: "ustring \<Rightarrow> outcome \<Rightarrow> state \<Rightarrow> (ustring \<times> bool) \<times> state" where
  "scrape_with_requests u out s =
     (let s1 = emit (Fetch Requests_fallback u) s
      in case out of
           Content text \<Rightarrow> ((text, True), s1)
         | _ \<Rightarrow> (([], False), s1))"

text \<open>
  \<^verbatim>\<open>scrape_with_uc_inmedia\<close> closes the driver on the path that returns the content only.
\<close>

definition scrape_with_uc_inmedia :: "ustring \<Rightarrow> outcome \<Rightarrow> state \<Rightarrow> (ustring \<times> bool) \<times> state" where
  "scrape_with_uc_inmedia u out s =
     (case out of
        No_page m \<Rightarrow> (([], False), s)
      | Content text \<Rightarrow> ((text, True), emit Close_driver (emit (Fetch Uc_fallback u) (emit New_driver s)))
      | _ \<Rightarrow> (([], False), emit (Fetch Uc_fallback u) (emit New_driver s)))"

definition strategies :: "ustring \<Rightarrow> strategy list" where
  "strategies u =
     (if str_contains (ustr ''inmediahk.net'') u
      then [Uc_fallback]
      else [Domcontentloaded, Networkidle, No_http2, Requests_fallback])"

definition select_strategy :: "ustring \<Rightarrow> nat \<Rightarrow> strategy" where
  "select_strategy u retries = strategies u ! min retries (length (strategies u) - 1)"

text \<open>
  The \<^verbatim>\<open>try\<close> block of \<^verbatim>\<open>scrape_url_async\<close>: it returns the page, or leaves through the
  handler of \<^verbatim>\<open>PlaywrightTimeout\<close>, or through the handler of \<^verbatim>\<open>Exception\<close> with the
  message.  A page shorter than 500 characters raises \<^verbatim>\<open>ValueError\<close>.
\<close>

datatype page_result = Page_ok ustring | Page_timeout | Page_error ustring

fun try_block :: "outcome \<Rightarrow> page_result" where
  "try_block (Content html) =
     (if length html < 500 then Page_error (ustr ''Page content too short, likely blocked'')
      else Page_ok html)"
| "try_block Timeout = Page_timeout"
| "try_block (Failure m) = Page_error m"
| "try_block (No_page m) = Page_error m"

text \<open>The \<^verbatim>\<open>finally\<close> block.\<close>

definition release :: "bool \<Rightarrow> state \<Rightarrow> state" where
  "release created_context s =
     (let s1 = emit Close_page s in if created_context then emit Close_context s1 else s1)"

text \<open>
  \<^verbatim>\<open>scrape_url_async\<close>.  The result is \<open>Inl\<close> when an exception leaves the function.  The
  retry is the recursive call of the source, made inside the handler, so the \<^verbatim>\<open>finally\<close>
  block of an attempt runs after the later attempts have returned.
\<close>

function scrape_url_async :: "world \<Rightarrow> config \<Rightarrow> url_info \<Rightarrow> nat \<Rightarrow> bool \<Rightarrow> state
    \<Rightarrow> (py_error + ustring \<times> bool) \<times> state" where
  "scrape_url_async w cfg u retries browser s =
     (let site_config = get_site_config (url u) cfg;
          strategy = select_strategy (url u) retries;
          out = attempt w (tick s);
          s1 = s\<lparr>tick := Suc (tick s)\<rparr>
      in if strategy = Requests_fallback
         then (case scrape_with_requests (url u) out s1 of (r, s2) \<Rightarrow> (Inr r, s2))
         else if strategy = Uc_fallback
         then (case scrape_with_uc_inmedia (url u) out s1 of (r, s2) \<Rightarrow> (Inr r, s2))
         else
           let created_context = (strategy = No_http2 \<and> browser \<and> \<not> new_context_fails w (tick s));
               s2 = (if created_context then emit New_context s1 else s1)
           in case out of
                No_page m \<Rightarrow> (Inl (PlaywrightError m), s2)
              | _ \<Rightarrow>
                (let s3 = emit (Fetch strategy (url u)) (emit New_page s2);
                     (r, s4) =
                       (case try_block out of
                          Page_ok html \<Rightarrow> (Inr (html, True), s3)
                        | Page_timeout \<Rightarrow>
                            if int retries < max_retries site_config
                            then scrape_url_async w cfg u (retries + 1) browser
                                   (emit (Backoff (2 ^ retries)) s3)
                            else (Inr ([], False), s3)
                        | Page_error m \<Rightarrow>
                            if str_contains (ustr ''Download is starting'') m
                            then (Inr ([], False), s3)
                            else if int retries < max_retries site_config
                            then scrape_url_async w cfg u (retries + 1) browser
                                   (emit (Backoff (2 ^ retries)) s3)
                            else (Inr ([], False), s3))
                 in (r, release created_context s4)))"
  by pat_completeness auto
termination
  by (relation "measure (\<lambda>(w, cfg, u, retries, browser, s).
        nat (max_retries (get_site_config (url u) cfg) - int retries))") auto

declare scrape_url_async.simps [simp del]

section \<open>Scheduler (\<^verbatim>\<open>scrape_domain_queue\<close>, \<^verbatim>\<open>run_scraper_async\<close>)\<close>

text \<open>
  The source directory of a candidate: \<^verbatim>\<open>NEWS_DIR / source.lower()\<close> when it exists,
  otherwise the first directory whose lower-cased name is \<^verbatim>\<open>source.lower()\<close>.  When there is
  none, the path does not exist and \<^verbatim>\<open>archive_dir.mkdir\<close> in \<^verbatim>\<open>save_archive\<close> raises.
\<close>

definition find_source_dir :: "unicode_db \<Rightarrow> ustring list \<Rightarrow> ustring \<Rightarrow> ustring option" where
  "find_source_dir db ds src =
     (let name = lower db src
      in if name \<in> set ds then Some name else find (\<lambda>d. lower db d = name) ds)"

text \<open>
  The branch \<^verbatim>\<open>if success and html\<close> of the worker's loop: archive the page, enter the URL
  in the registry, write the registry file, count the success.  (The buttons that the
  source then adds to the markdown document are outside the model.)
\<close>

definition archive_and_record :: "world \<Rightarrow> unicode_db \<Rightarrow> url_info \<Rightarrow> ustring \<Rightarrow> state
    \<Rightarrow> py_error + state" where
  "archive_and_record w db u html s =
     (case find_source_dir db (news_dirs w) (source u) of
        None \<Rightarrow> Inl FileNotFoundError
      | Some source_dir \<Rightarrow>
          (let now = clock w (tick s);
               saved = save_archive db u html source_dir now (dirs s);
               archive_dir = fst (fst saved);
               registry = (reg s)\<lparr>scraped_urls :=
                 AList.update (url u)
                   \<lparr>entry_title = title u, entry_source = lower db (source u),
                    entry_source_file = source_file u, entry_scraped_at = now,
                    entry_archive_path = posix_path archive_dir\<rparr>
                   (scraped_urls (reg s))\<rparr>;
               written = save_registry now registry
           in Inr (s\<lparr>dirs := snd saved, reg := fst written, reg_file := snd written,
                       success := success s + 1\<rparr>)))"

text \<open>The \<^verbatim>\<open>else\<close> branch: count the failure and keep the URL.\<close>

definition record_failure :: "url_info \<Rightarrow> state \<Rightarrow> state" where
  "record_failure u s = s\<lparr>failed := failed s + 1, failed_urls := failed_urls s @ [url u]\<rparr>"

text \<open>\<^verbatim>\<open>urls.index(url_info)\<close>: the first position of an equal element.\<close>

fun index_of :: "'a list \<Rightarrow> 'a \<Rightarrow> nat option" where
  "index_of [] x = None"
| "index_of (y # ys) x = (if y = x then Some 0 else map_option Suc (index_of ys x))"

text \<open>
  The loop \<^verbatim>\<open>for url_info in urls\<close> of \<^verbatim>\<open>scrape_domain_queue\<close>; \<open>urls\<close> is the whole queue
  and the last list argument what is left of it.
\<close>

fun domain_loop :: "world \<Rightarrow> unicode_db \<Rightarrow> config \<Rightarrow> url_info list \<Rightarrow> int \<Rightarrow> url_info list
    \<Rightarrow> state \<Rightarrow> (py_error + unit) \<times> state" where
  "domain_loop w db cfg urls delay [] s = (Inr (), s)"
| "domain_loop w db cfg urls delay (u # rest) s =
     (case scrape_url_async w cfg u 0 True s of
        (Inl e, s1) \<Rightarrow> (Inl e, s1)
      | (Inr (html, ok), s1) \<Rightarrow>
          (case (if ok \<and> html \<noteq> [] then archive_and_record w db u html s1
                 else Inr (record_failure u s1)) of
             Inl e \<Rightarrow> (Inl e, s1)
           | Inr s2 \<Rightarrow>
               (case index_of urls u of
                  None \<Rightarrow> (Inl ValueError, s2)
                | Some i \<Rightarrow>
                    domain_loop w db cfg urls delay rest
                      (if int i < int (length urls) - 1 then emit (Politeness delay) s2 else s2))))"

definition scrape_domain_queue :: "world \<Rightarrow> unicode_db \<Rightarrow> config \<Rightarrow> url_info list \<Rightarrow> state
    \<Rightarrow> (py_error + unit) \<times> state" where
  "scrape_domain_queue w db cfg urls s =
     (let s1 = emit New_context s
      in case urls of
           [] \<Rightarrow> (Inl IndexError, s1)
         | u0 # _ \<Rightarrow>
             (case domain_loop w db cfg urls (delay_seconds (get_site_config (url u0) cfg)) urls s1 of
                (Inl e, s2) \<Rightarrow> (Inl e, s2)
              | (Inr _, s2) \<Rightarrow> (Inr (), emit Close_context s2)))"

text \<open>
  \<^verbatim>\<open>asyncio.gather\<close> over the domain workers.  The event loop runs a single thread and
  switches between workers only where one of them awaits, so a run is an interleaving of
  the workers' steps; the model runs the workers one after the other in the order of the
  domains, which is the schedule of the event loop when one worker is admitted at a time.
  When a worker raises, \<^verbatim>\<open>gather\<close> passes the exception on at once and the run ends; the
  workers admitted with it are cut off wherever they are, and what they did until then
  stays.  The model ends such a run with the workers before the raising one complete and
  the later ones not started, so it is exact for a single domain and for runs in which no
  worker raises; what holds of a run that raises is stated for each worker by itself.
\<close>

fun run_workers :: "world \<Rightarrow> unicode_db \<Rightarrow> config \<Rightarrow> (ustring \<times> url_info list) list \<Rightarrow> state
    \<Rightarrow> (py_error + unit) \<times> state" where
  "run_workers w db cfg [] s = (Inr (), s)"
| "run_workers w db cfg ((d, urls) # ds) s =
     (case scrape_domain_queue w db cfg urls s of
        (Inl e, s1) \<Rightarrow> (Inl e, s1)
      | (Inr _, s1) \<Rightarrow> run_workers w db cfg ds s1)"

record results =
  res_success :: nat
  res_failed :: nat
  res_failed_urls :: "ustring list"

definition no_results :: results where
  "no_results = \<lparr>res_success = 0, res_failed = 0, res_failed_urls = []\<rparr>"

text \<open>
  \<^verbatim>\<open>run_scraper_async\<close> on the candidates \<^verbatim>\<open>all_urls\<close> that the extractor found.  A \<^verbatim>\<open>limit\<close>
  of \<^verbatim>\<open>None\<close> or 0 is no limit.
\<close>

definition run_scraper_async :: "world \<Rightarrow> unicode_db \<Rightarrow> config \<Rightarrow> url_info list \<Rightarrow> bool
    \<Rightarrow> int option \<Rightarrow> state \<Rightarrow> (py_error + results) \<times> state" where
  "run_scraper_async w db cfg all_urls dry_run limit s =
     (case load_registry (reg_file s) of
        Inl e \<Rightarrow> (Inl e, s)
      | Inr registry \<Rightarrow>
          (let new_urls = filter_new_urls all_urls registry;
               new_urls = (case limit of
                             None \<Rightarrow> new_urls
                           | Some n \<Rightarrow> if n = 0 then new_urls else slice_to new_urls n)
           in if dry_run then (Inr no_results, s)
              else if new_urls = [] then (Inr no_results, s)
              else (case run_workers w db cfg (group_urls_by_domain new_urls)
                           (s\<lparr>reg := registry, success := 0, failed := 0, failed_urls := []\<rparr>) of
                      (Inl e, s1) \<Rightarrow> (Inl e, s1)
                    | (Inr _, s1) \<Rightarrow>
                        (Inr \<lparr>res_success = success s1, res_failed = failed s1,
                              res_failed_urls = failed_urls s1\<rparr>, s1))))"

text \<open>The fetch attempts and the back-off delays among some events.\<close>

fun is_fetch :: "event \<Rightarrow> bool" where
  "is_fetch (Fetch st u) = True"
| "is_fetch e = False"

fun backoffs :: "event list \<Rightarrow> nat list" where
  "backoffs [] = []"
| "backoffs (Backoff d # es) = d # backoffs es"
| "backoffs (e # es) = backoffs es"

text \<open>A failure that the retry chain retries: a time-out, a page shorter than 500
  characters, or an error whose message does not announce a download.\<close>

fun retryable :: "outcome \<Rightarrow> bool" where
  "retryable (Content html) = (length html < 500)"
| "retryable Timeout = True"
| "retryable (Failure m) = (\<not> str_contains (ustr ''Download is starting'') m)"
| "retryable (No_page m) = False"

text \<open>The state after \<open>n\<close> more fetch attempts that produced the events \<open>evs\<close> and changed
  nothing else.\<close>

definition advance :: "nat \<Rightarrow> event list \<Rightarrow> state \<Rightarrow> state" where
  "advance n evs s = s\<lparr>tick := tick s + n, trace := trace s @ evs\<rparr>"

text \<open>The events of the first attempt at a URL when that attempt ends the fetch at once.\<close>

definition first_attempt_only :: "ustring \<Rightarrow> event list" where
  "first_attempt_only v =
     (if str_contains (ustr ''inmediahk.net'') v
      then [New_driver, Fetch Uc_fallback v]
      else [New_page, Fetch Domcontentloaded v, Close_page])"

text \<open>The URLs that some events fetch, and whether a registry has an entry for a URL.\<close>

fun fetched :: "event list \<Rightarrow> ustring list" where
  "fetched [] = []"
| "fetched (Fetch st v # es) = v # fetched es"
| "fetched (e # es) = fetched es"

definition recorded :: "registry \<Rightarrow> ustring \<Rightarrow> bool" where
  "recorded r v = (map_of (scraped_urls r) v \<noteq> None)"

text \<open>
  How the state after a part of a run relates to the state before it, when that part
  fetches URLs of the set \<open>U\<close> only: events are appended, failures are only counted up,
  registry entries are only added, and a registry file that agreed with the registry in
  memory still does.
\<close>

definition grows :: "ustring set \<Rightarrow> state \<Rightarrow> state \<Rightarrow> bool" where
  "grows U s s' =
     ((\<exists>evs. trace s' = trace s @ evs \<and> set (fetched evs) \<subseteq> U)
      \<and> failed s \<le> failed s'
      \<and> (\<forall>v. recorded (reg s) v \<longrightarrow> recorded (reg s') v)
      \<and> (load_registry (reg_file s) = Inr (reg s) \<longrightarrow> load_registry (reg_file s') = Inr (reg s')))"

section \<open>The scenario of the specification\<close>

text \<open>
  Two candidates with the title \<^verbatim>\<open>Foo\<close> and different URLs, of the source \<^verbatim>\<open>bbc\<close>, and a
  page; they are the concrete inputs of the examples.
\<close>

definition cand_x :: url_info where
  "cand_x = \<lparr>title = ustr ''Foo'', url = ustr ''https://a.example/x'',
     source_file = ustr ''content/news/bbc/README.md'', source = ustr ''bbc''\<rparr>"

definition cand_y :: url_info where
  "cand_y = \<lparr>title = ustr ''Foo'', url = ustr ''https://a.example/y'',
     source_file = ustr ''content/news/bbc/README.md'', source = ustr ''bbc''\<rparr>"

definition page_ok :: ustring where
  "page_ok = ustr ''<html>ok</html>''"

text \<open>
  A candidate of the site that is pinned to the Chrome driver; the configuration that
  \<^verbatim>\<open>load_config\<close> returns when there is no \<^verbatim>\<open>config.yml\<close>, and the same with \<^verbatim>\<open>max_retries = 2\<close>
  for the two domains; an environment in which every attempt times out; and the state
  before the first run.
\<close>

definition cand_inmedia :: url_info where
  "cand_inmedia = \<lparr>title = ustr ''Bar'', url = ustr ''https://www.inmediahk.net/node/1'',
     source_file = ustr ''content/news/inmediahk/README.md'', source = ustr ''inmediahk''\<rparr>"

definition default_config :: config where
  "default_config =
     \<lparr>rate_limit = \<lparr>delay_seconds = 3, max_retries = 3, timeout_seconds = 60\<rparr>,
      user_agent = ustr ''Mozilla/5.0 (Macintosh; Intel Mac OS X 10_15_7) AppleWebKit/537.36 (KHTML, like Gecko) Chrome/120.0.0.0 Safari/537.36'',
      sites = []\<rparr>"

definition config_two_retries :: config where
  "config_two_retries = default_config\<lparr>sites :=
     [(ustr ''a.example'',
       \<lparr>site_delay_seconds = None, site_max_retries = Some 2, site_timeout_seconds = None\<rparr>),
      (ustr ''inmediahk.net'',
       \<lparr>site_delay_seconds = None, site_max_retries = Some 2, site_timeout_seconds = None\<rparr>)]\<rparr>"

definition world_of :: "(nat \<Rightarrow> outcome) \<Rightarrow> world" where
  "world_of f = \<lparr>attempt = f, new_context_fails = (\<lambda>n. False), clock = (\<lambda>n. n),
     news_dirs = [ustr ''bbc'', ustr ''inmediahk'']\<rparr>"

definition start_state :: state where
  "start_state = \<lparr>tick = 0, trace = [], dirs = [], reg_file = No_file, reg = empty_registry,
     success = 0, failed = 0, failed_urls = []\<rparr>"

text \<open>A page of 500 characters, long enough to pass the length test.\<close>

definition long_page :: ustring where
  "long_page = replicate 500 120"

section \<open>Results: Registry\<close>

text \<open>
  C1 (as stated: every unreadable or malformed registry file loads as the empty registry
  without raising).  The code does not do this: a file whose decoding raises
  \<^verbatim>\<open>JSONDecodeError\<close> makes \<^verbatim>\<open>load_registry\<close> raise that error.
\<close>

theorem load_registry_malformed_raises:
  "load_registry (Bad_file JSONDecodeError) = Inl JSONDecodeError
   \<and> load_registry (Bad_file JSONDecodeError) \<noteq> Inr empty_registry"
  by simp

text \<open>
  C1 (amended): \<^verbatim>\<open>load_registry\<close> returns the empty registry exactly when no registry file
  exists or the file holds the empty registry, returns the decoded registry when the file
  is well formed, and raises the decoder's error when the file is unreadable or malformed.
\<close>

theorem load_registry_cases:
  "load_registry No_file = Inr empty_registry
   \<and> load_registry (Json_file r) = Inr r
   \<and> load_registry (Bad_file e) = Inl e
   \<and> (\<exists>r. load_registry f = Inr r) = (\<forall>e. f \<noteq> Bad_file e)"
  by (cases f) auto

section \<open>Results: slugs\<close>

lemma single_hyphens_Cons:
  "single_hyphens (a # t) = ((a = 45 \<longrightarrow> t = [] \<or> hd t \<noteq> 45) \<and> single_hyphens t)"
  by (cases t) auto

lemma single_hyphens_append:
  "single_hyphens (xs @ ys) \<Longrightarrow> single_hyphens xs \<and> single_hyphens ys"
proof (induction xs)
  case Nil
  then show ?case by simp
next
  case (Cons a xs)
  then show ?case by (cases xs) (auto simp: single_hyphens_Cons)
qed

lemma single_hyphens_sublist:
  "sublist xs ys \<Longrightarrow> single_hyphens ys \<Longrightarrow> single_hyphens xs"
  by (auto simp: sublist_def dest!: single_hyphens_append)

lemma collapse_runs_hd:
  "s \<noteq> [] \<Longrightarrow> \<not> (hd s = 45 \<or> is_space db (hd s)) \<Longrightarrow> hd (collapse_runs db s) = hd s \<and> collapse_runs db s \<noteq> []"
  by (cases s) auto

lemma single_hyphens_collapse: "single_hyphens (collapse_runs db s)"
proof (induction db s rule: collapse_runs.induct)
  case (1 db)
  then show ?case by simp
next
  case (2 db c cs)
  let ?r = "dropWhile (\<lambda>d. d = 45 \<or> is_space db d) cs"
  show ?case
  proof (cases "c = 45 \<or> is_space db c")
    case True
    have "collapse_runs db ?r = [] \<or> hd (collapse_runs db ?r) \<noteq> 45"
    proof (cases "?r = []")
      case True
      then have "collapse_runs db ?r = []" by (simp only: collapse_runs.simps)
      then show ?thesis ..
    next
      case False
      then have "\<not> (hd ?r = 45 \<or> is_space db (hd ?r))"
        using hd_dropWhile[of "\<lambda>d. d = 45 \<or> is_space db d" cs] by simp
      with False show ?thesis using collapse_runs_hd[of ?r db] by auto
    qed
    with True 2 show ?thesis by (simp add: single_hyphens_Cons)
  next
    case False
    with 2 show ?thesis by (simp add: single_hyphens_Cons)
  qed
qed

lemma set_collapse_runs:
  "c \<in> set (collapse_runs db s) \<Longrightarrow> c = 45 \<or> (c \<in> set s \<and> \<not> is_space db c)"
  by (induction db s rule: collapse_runs.induct) (auto split: if_splits dest: set_dropWhileD)

lemma sublist_strip_hyphens: "sublist (strip_hyphens s) s"
proof -
  let ?P = "\<lambda>c::nat. c = 45"
  have "sublist (dropWhile ?P (rev (dropWhile ?P s))) (rev (dropWhile ?P s))"
    by (rule sublist_dropWhile)
  moreover have "sublist (rev (dropWhile ?P s)) (rev s)"
    by (simp add: sublist_rev sublist_dropWhile)
  ultimately have "sublist (dropWhile ?P (rev (dropWhile ?P s))) (rev s)"
    by (rule sublist_order.order.trans)
  then show ?thesis by (simp add: strip_hyphens_def sublist_rev_left)
qed

lemma sublist_rsplit_head: "sublist (rsplit_head s) s"
proof -
  let ?Q = "\<lambda>c::nat. c \<noteq> 45"
  have "sublist (tl (dropWhile ?Q (rev s))) (dropWhile ?Q (rev s))" by (rule sublist_tl)
  moreover have "sublist (dropWhile ?Q (rev s)) (rev s)" by (rule sublist_dropWhile)
  ultimately have "sublist (tl (dropWhile ?Q (rev s))) (rev s)" by (rule sublist_order.order.trans)
  then show ?thesis by (simp add: rsplit_head_def sublist_rev_left)
qed

lemma sublist_slice_to: "sublist (slice_to s n) s"
  by (simp add: slice_to_def)

lemma strip_hyphens_ends:
  "strip_hyphens s \<noteq> [] \<Longrightarrow> hd (strip_hyphens s) \<noteq> 45 \<and> last (strip_hyphens s) \<noteq> 45"
proof -
  assume ne: "strip_hyphens s \<noteq> []"
  let ?P = "\<lambda>c::nat. c = 45"
  let ?d = "dropWhile ?P s"
  let ?e = "dropWhile ?P (rev ?d)"
  from ne have e: "?e \<noteq> []" by (simp add: strip_hyphens_def)
  have d: "?d \<noteq> []"
  proof
    assume "?d = []"
    then have "?e = []" by (simp only: rev.simps dropWhile.simps)
    with e show False ..
  qed
  have l: "last (strip_hyphens s) \<noteq> 45"
    using hd_dropWhile[OF e] e by (simp add: strip_hyphens_def last_rev)
  have hdd: "hd ?d \<noteq> 45" using hd_dropWhile[OF d] by simp
  have "hd ?d \<in> set (rev ?d)" using d by simp
  then have "last ?e = last (rev ?d)" using hdd by (rule dropWhile_last)
  then have "hd (strip_hyphens s) = hd ?d"
    using e d by (simp add: strip_hyphens_def hd_rev last_rev)
  with hdd l show ?thesis by simp
qed

lemma single_hyphens_before_hyphen:
  "single_hyphens (xs @ [45]) \<Longrightarrow> xs \<noteq> [] \<Longrightarrow> last xs \<noteq> 45"
proof (induction xs)
  case Nil
  then show ?case by simp
next
  case (Cons a xs)
  then show ?case by (cases xs) (auto simp: single_hyphens_Cons)
qed

lemma rsplit_head_ends:
  assumes "single_hyphens s" and "s \<noteq> []" and "hd s \<noteq> 45"
  shows "rsplit_head s \<noteq> [] \<and> hd (rsplit_head s) \<noteq> 45 \<and> last (rsplit_head s) \<noteq> 45"
proof (cases "45 \<in> set s")
  case False
  from assms(2) have "last s \<in> set s" by (rule last_in_set)
  with False have "last s \<noteq> 45" by metis
  with False assms show ?thesis by (simp add: rsplit_head_def)
next
  case True
  let ?Q = "\<lambda>c::nat. c \<noteq> 45"
  let ?post = "takeWhile ?Q (rev s)"
  let ?d = "dropWhile ?Q (rev s)"
  from True have dne: "?d \<noteq> []" by auto
  then have hdd: "hd ?d = 45" using hd_dropWhile[OF dne] by simp
  from dne hdd have d: "?d = 45 # tl ?d" by (cases ?d) auto
  have s: "s = rev (tl ?d) @ 45 # rev ?post"
  proof -
    have "rev s = ?post @ ?d" by simp
    then have "rev s = ?post @ 45 # tl ?d" using d by simp
    then have "rev (rev s) = rev (?post @ 45 # tl ?d)" by (rule arg_cong)
    then show ?thesis by simp
  qed
  have r: "rsplit_head s = rev (tl ?d)" using True by (simp add: rsplit_head_def)
  show ?thesis
  proof (cases "tl ?d = []")
    case True
    have "hd (rev (tl ?d) @ 45 # rev ?post) = 45" using True by simp
    with s have "hd s = 45" by metis
    with assms show ?thesis by simp
  next
    case False
    then have ne: "rev (tl ?d) \<noteq> []" by simp
    have h: "hd (rsplit_head s) = hd s" using s ne r by (metis hd_append2)
    have "single_hyphens ((rev (tl ?d) @ [45]) @ rev ?post)"
      using assms(1) s by simp
    then have "single_hyphens (rev (tl ?d) @ [45])"
      by (blast dest: single_hyphens_append)
    then have "last (rev (tl ?d)) \<noteq> 45" using ne by (rule single_hyphens_before_hyphen)
    with h r ne assms show ?thesis by simp
  qed
qed

lemma slice_truncates:
  "int (length s) > n \<Longrightarrow> 0 \<le> n \<Longrightarrow> int (length (slice_to s n)) \<le> n"
  by (simp add: slice_to_def)

lemma length_rsplit_head: "length (rsplit_head s) \<le> length s"
  using sublist_rsplit_head[of s] by (rule sublist_length_le)

lemma hd_slice_to:
  "0 < n \<Longrightarrow> s \<noteq> [] \<Longrightarrow> slice_to s n \<noteq> [] \<and> hd (slice_to s n) = hd s"
  by (cases s; cases "nat n") (auto simp: slice_to_def)

lemma single_hyphens_normalize: "single_hyphens (normalize_title db text)"
  unfolding normalize_title_def Let_def
  by (rule single_hyphens_sublist[OF sublist_strip_hyphens single_hyphens_collapse])

lemma normalize_title_ends:
  "normalize_title db text \<noteq> [] \<Longrightarrow>
     hd (normalize_title db text) \<noteq> 45 \<and> last (normalize_title db text) \<noteq> 45"
  unfolding normalize_title_def Let_def by (rule strip_hyphens_ends)

lemma sublist_normalize_title:
  "sublist (normalize_title db text)
     (collapse_runs db (keep_word_space_hyphen db (lower db (nfkd db text))))"
  unfolding normalize_title_def Let_def by (rule sublist_strip_hyphens)

lemma normalize_title_chars:
  assumes "lower_stable db" and "c \<in> set (normalize_title db text)"
  shows "slug_char db c"
proof -
  let ?t2 = "lower db (nfkd db text)"
  from assms(2) have "c \<in> set (collapse_runs db (keep_word_space_hyphen db ?t2))"
    using sublist_normalize_title[of db "text"] by (auto dest: set_mono_sublist)
  then have "c = 45 \<or> (c \<in> set (keep_word_space_hyphen db ?t2) \<and> \<not> is_space db c)"
    by (rule set_collapse_runs)
  then have "c = 45 \<or> (c \<in> set ?t2 \<and> is_word db c)"
    by (auto simp: keep_word_space_hyphen_def)
  moreover have "c \<in> set ?t2 \<Longrightarrow> lower db [c] = [c]"
    using assms(1) by (auto simp: lower_stable_def list_all_iff)
  ultimately show ?thesis by (auto simp: slug_char_def)
qed

lemma ustr_untitled: "ustr ''untitled'' = [117, 110, 116, 105, 116, 108, 101, 100]"
  by (simp add: ustr_def)

lemma truncated_props:
  assumes big: "int (length t5) > n" and n: "0 < n"
    and sh: "single_hyphens t5" and ends: "t5 \<noteq> [] \<Longrightarrow> hd t5 \<noteq> 45"
  shows "rsplit_head (slice_to t5 n) \<noteq> []
     \<and> int (length (rsplit_head (slice_to t5 n))) \<le> n
     \<and> hd (rsplit_head (slice_to t5 n)) \<noteq> 45
     \<and> last (rsplit_head (slice_to t5 n)) \<noteq> 45
     \<and> sublist (rsplit_head (slice_to t5 n)) t5"
proof -
  let ?p = "slice_to t5 n"
  from big n have ne: "t5 \<noteq> []" by auto
  with n have p: "?p \<noteq> []" "hd ?p = hd t5" using hd_slice_to[of n t5] by auto
  have shp: "single_hyphens ?p" using sublist_slice_to sh by (rule single_hyphens_sublist)
  from p ends ne have "hd ?p \<noteq> 45" by simp
  with shp p(1) have e: "rsplit_head ?p \<noteq> [] \<and> hd (rsplit_head ?p) \<noteq> 45 \<and> last (rsplit_head ?p) \<noteq> 45"
    by (rule rsplit_head_ends)
  have "length (rsplit_head ?p) \<le> length ?p" by (rule length_rsplit_head)
  moreover have "int (length ?p) \<le> n" using big n by (simp add: slice_truncates)
  ultimately have l: "int (length (rsplit_head ?p)) \<le> n" by linarith
  have "sublist (rsplit_head ?p) t5"
    using sublist_rsplit_head sublist_slice_to by (rule sublist_order.order.trans)
  with e l show ?thesis by simp
qed

lemma lower_stable_ascii_db: "lower_stable ascii_db"
  by (auto simp: lower_stable_def ascii_db_def ustr_untitled list_all_iff ascii_lower_def ascii_alpha_def)

text \<open>
  C10 (as stated: for every input and every \<^verbatim>\<open>max_length\<close> the slug is at most \<^verbatim>\<open>max_length\<close>
  characters long).  The fixed slug \<^verbatim>\<open>untitled\<close> has eight characters and is returned whatever
  \<^verbatim>\<open>max_length\<close> is: \<^verbatim>\<open>slugify("", 3)\<close> is \<^verbatim>\<open>"untitled"\<close>.
\<close>

theorem slugify_short_max_length:
  "slugify ascii_db [] 3 = ustr ''untitled'' \<and> \<not> int (length (slugify ascii_db [] 3)) \<le> 3"
  by (simp add: slugify_def normalize_title_def ascii_db_def keep_word_space_hyphen_def
      strip_hyphens_def ustr_untitled)

text \<open>
  C10 (amended): with \<^verbatim>\<open>max_length\<close> at least 8, as with the default 80, \<^verbatim>\<open>slugify\<close> returns a
  non-empty string of at most \<^verbatim>\<open>max_length\<close> characters, each a hyphen or a lower-case word
  character, with no two hyphens in a row and no hyphen at either end; a text whose normal
  form is empty gives \<^verbatim>\<open>untitled\<close>.
\<close>

theorem slugify_shape:
  assumes db: "lower_stable db" and n: "8 \<le> max_length"
  shows "slugify db text max_length \<noteq> []
     \<and> int (length (slugify db text max_length)) \<le> max_length
     \<and> list_all (slug_char db) (slugify db text max_length)
     \<and> single_hyphens (slugify db text max_length)
     \<and> hd (slugify db text max_length) \<noteq> 45
     \<and> last (slugify db text max_length) \<noteq> 45
     \<and> (normalize_title db text = [] \<longrightarrow> slugify db text max_length = ustr ''untitled'')"
proof -
  let ?t5 = "normalize_title db text"
  have unt: "list_all (slug_char db) (ustr ''untitled'')"
    using db by (simp add: lower_stable_def slug_char_def list_all_iff)
  have chars: "\<And>t. sublist t ?t5 \<Longrightarrow> list_all (slug_char db) t"
    using normalize_title_chars[OF db] by (auto simp: list_all_iff dest: set_mono_sublist)
  show ?thesis
  proof (cases "?t5 = []")
    case True
    with n unt show ?thesis by (simp add: slugify_def ustr_untitled)
  next
    case False
    note ne = this
    show ?thesis
    proof (cases "int (length ?t5) > max_length")
      case True
      from n have "0 < max_length" by simp
      with True have tp: "rsplit_head (slice_to ?t5 max_length) \<noteq> []
         \<and> int (length (rsplit_head (slice_to ?t5 max_length))) \<le> max_length
         \<and> hd (rsplit_head (slice_to ?t5 max_length)) \<noteq> 45
         \<and> last (rsplit_head (slice_to ?t5 max_length)) \<noteq> 45
         \<and> sublist (rsplit_head (slice_to ?t5 max_length)) ?t5"
        using single_hyphens_normalize normalize_title_ends by (intro truncated_props) auto
      then have eq: "slugify db text max_length = rsplit_head (slice_to ?t5 max_length)"
        using True by (simp add: slugify_def)
      from tp have "single_hyphens (rsplit_head (slice_to ?t5 max_length))"
        using single_hyphens_normalize single_hyphens_sublist by blast
      with tp chars ne show ?thesis unfolding eq by simp
    next
      case False
      with ne have eq: "slugify db text max_length = ?t5" by (simp add: slugify_def)
      from False ne show ?thesis unfolding eq
        using single_hyphens_normalize[of db "text"] normalize_title_ends[of db "text"]
          chars[of ?t5] by simp
    qed
  qed
qed

theorem slugify_shape_witness:
  "lower_stable ascii_db \<and> (8::int) \<le> 80
   \<and> slugify ascii_db (ustr ''Foo, Bar -- baz!'') 80 = ustr ''foo-bar-baz''
   \<and> slugify ascii_db (ustr ''Foo, Bar -- baz!'') 80 \<noteq> []
   \<and> int (length (slugify ascii_db (ustr ''Foo, Bar -- baz!'') 80)) \<le> 80
   \<and> list_all (slug_char ascii_db) (slugify ascii_db (ustr ''Foo, Bar -- baz!'') 80)
   \<and> single_hyphens (slugify ascii_db (ustr ''Foo, Bar -- baz!'') 80)
   \<and> hd (slugify ascii_db (ustr ''Foo, Bar -- baz!'') 80) \<noteq> 45
   \<and> last (slugify ascii_db (ustr ''Foo, Bar -- baz!'') 80) \<noteq> 45
   \<and> normalize_title ascii_db (ustr ''-- !? --'') = []
   \<and> slugify ascii_db (ustr ''-- !? --'') 80 = ustr ''untitled''"
proof -
  have e: "slugify ascii_db (ustr ''Foo, Bar -- baz!'') 80 = ustr ''foo-bar-baz''"
    by code_simp
  have z: "normalize_title ascii_db (ustr ''-- !? --'') = []"
    by code_simp
  have n: "(8::int) \<le> 80" by simp
  show ?thesis
    using slugify_shape[OF lower_stable_ascii_db n, of "ustr ''Foo, Bar -- baz!''"]
      slugify_shape[OF lower_stable_ascii_db n, of "ustr ''-- !? --''"]
      lower_stable_ascii_db e z by simp
qed

section \<open>Results: archive store\<close>

lemma probe_spec:
  "\<exists>n\<ge>c. (\<forall>k. c \<le> k \<and> k < n \<longrightarrow> dir_exists fs (suffixed sd slug k)
                 \<and> get_existing_archive_url fs (suffixed sd slug k) \<noteq> Some u)
        \<and> (if dir_exists fs (suffixed sd slug n)
           then get_existing_archive_url fs (suffixed sd slug n) = Some u
                \<and> probe fs sd slug u c = (suffixed sd slug n, False)
           else probe fs sd slug u c = (suffixed sd slug n, True))"
proof (induction fs sd slug u c rule: probe.induct)
  case (1 fs sd slug u c)
  show ?case
  proof (cases "dir_exists fs (suffixed sd slug c)")
    case False
    then have "probe fs sd slug u c = (suffixed sd slug c, True)" by (simp add: probe.simps)
    with False show ?thesis by (intro exI[of _ c]) auto
  next
    case True
    note ex = this
    show ?thesis
    proof (cases "get_existing_archive_url fs (suffixed sd slug c) = Some u")
      case True
      with ex have "probe fs sd slug u c = (suffixed sd slug c, False)" by (simp add: probe.simps)
      with ex True show ?thesis by (intro exI[of _ c]) auto
    next
      case False
      from "1.IH"[OF ex False] obtain n where n: "c + 1 \<le> n"
        and before: "\<forall>k. c + 1 \<le> k \<and> k < n \<longrightarrow> dir_exists fs (suffixed sd slug k)
                 \<and> get_existing_archive_url fs (suffixed sd slug k) \<noteq> Some u"
        and at: "if dir_exists fs (suffixed sd slug n)
           then get_existing_archive_url fs (suffixed sd slug n) = Some u
                \<and> probe fs sd slug u (c + 1) = (suffixed sd slug n, False)
           else probe fs sd slug u (c + 1) = (suffixed sd slug n, True)"
        by blast
      have step: "probe fs sd slug u c = probe fs sd slug u (c + 1)"
        using ex False by (simp add: probe.simps[of fs sd slug u c])
      have "\<forall>k. c \<le> k \<and> k < n \<longrightarrow> dir_exists fs (suffixed sd slug k)
                 \<and> get_existing_archive_url fs (suffixed sd slug k) \<noteq> Some u"
      proof (intro allI impI)
        fix k assume k: "c \<le> k \<and> k < n"
        show "dir_exists fs (suffixed sd slug k)
                 \<and> get_existing_archive_url fs (suffixed sd slug k) \<noteq> Some u"
        proof (cases "k = c")
          case True with ex False show ?thesis by simp
        next
          case False with k before show ?thesis by simp
        qed
      qed
      with n at step show ?thesis by (intro exI[of _ n]) (simp split: if_splits)
    qed
  qed
qed

lemma url_write_article:
  "get_existing_archive_url (write_article db u html now p fs) p = Some (url u)"
  by (simp add: get_existing_archive_url_def write_article_def update_conv')

lemma map_of_write_article_other:
  "q \<noteq> p \<Longrightarrow> map_of (write_article db u html now p fs) q = map_of fs q"
  by (simp add: write_article_def update_conv')

lemma map_of_write_article_kept:
  "\<not> dir_exists fs p \<Longrightarrow> dir_exists fs q
   \<Longrightarrow> map_of (write_article db u html now p fs) q = map_of fs q"
  by (cases "q = p") (auto simp: map_of_write_article_other)

lemma url_write_article_other:
  "q \<noteq> p \<Longrightarrow> get_existing_archive_url (write_article db u html now p fs) q
     = get_existing_archive_url fs q"
  by (simp add: get_existing_archive_url_def map_of_write_article_other)

lemma dir_exists_write_article:
  "dir_exists (write_article db u html now p fs) q = (q = p \<or> dir_exists fs q)"
  by (simp add: dir_exists_def write_article_def update_conv')

lemma url_Some_exists: "get_existing_archive_url fs p = Some v \<Longrightarrow> dir_exists fs p"
  by (auto simp: get_existing_archive_url_def dir_exists_def split: option.splits)

lemma save_archive_match:
  "get_existing_archive_url fs (sd, slugify db (title u) 80) = Some (url u)
   \<Longrightarrow> save_archive db u html sd now fs = (((sd, slugify db (title u) 80), False), fs)"
  by (simp add: save_archive_def Let_def url_Some_exists)

lemma save_archive_fresh:
  "\<not> dir_exists fs (sd, slugify db (title u) 80)
   \<Longrightarrow> save_archive db u html sd now fs
       = (((sd, slugify db (title u) 80), True),
          write_article db u html now (sd, slugify db (title u) 80) fs)"
  by (simp add: save_archive_def Let_def)

lemma save_archive_probe:
  assumes "dir_exists fs (sd, slugify db (title u) 80)"
    and "get_existing_archive_url fs (sd, slugify db (title u) 80) \<noteq> Some (url u)"
  shows "\<exists>n\<ge>1. (\<forall>k. 1 \<le> k \<and> k < n \<longrightarrow> dir_exists fs (suffixed sd (slugify db (title u) 80) k)
                 \<and> get_existing_archive_url fs (suffixed sd (slugify db (title u) 80) k) \<noteq> Some (url u))
        \<and> (if dir_exists fs (suffixed sd (slugify db (title u) 80) n)
           then get_existing_archive_url fs (suffixed sd (slugify db (title u) 80) n) = Some (url u)
                \<and> save_archive db u html sd now fs = ((suffixed sd (slugify db (title u) 80) n, False), fs)
           else save_archive db u html sd now fs
                = ((suffixed sd (slugify db (title u) 80) n, True),
                   write_article db u html now (suffixed sd (slugify db (title u) 80) n) fs))"
proof -
  let ?slug = "slugify db (title u) 80"
  from probe_spec[of 1 fs sd ?slug "url u"] obtain n where n: "1 \<le> n"
    and before: "\<forall>k. 1 \<le> k \<and> k < n \<longrightarrow> dir_exists fs (suffixed sd ?slug k)
                 \<and> get_existing_archive_url fs (suffixed sd ?slug k) \<noteq> Some (url u)"
    and at: "if dir_exists fs (suffixed sd ?slug n)
           then get_existing_archive_url fs (suffixed sd ?slug n) = Some (url u)
                \<and> probe fs sd ?slug (url u) 1 = (suffixed sd ?slug n, False)
           else probe fs sd ?slug (url u) 1 = (suffixed sd ?slug n, True)"
    by blast
  have "if dir_exists fs (suffixed sd ?slug n)
           then get_existing_archive_url fs (suffixed sd ?slug n) = Some (url u)
                \<and> save_archive db u html sd now fs = ((suffixed sd ?slug n, False), fs)
           else save_archive db u html sd now fs
                = ((suffixed sd ?slug n, True), write_article db u html now (suffixed sd ?slug n) fs)"
    using at assms by (simp add: save_archive_def Let_def split: if_splits)
  with n before show ?thesis by blast
qed

lemma save_archive_post:
  "get_existing_archive_url (snd (save_archive db u html sd now fs))
      (fst (fst (save_archive db u html sd now fs))) = Some (url u)
   \<and> (\<forall>q. dir_exists fs q \<longrightarrow>
         map_of (snd (save_archive db u html sd now fs)) q = map_of fs q)
   \<and> (snd (fst (save_archive db u html sd now fs)) =
        (\<not> dir_exists fs (fst (fst (save_archive db u html sd now fs)))))"
proof -
  let ?slug = "slugify db (title u) 80"
  show ?thesis
  proof (cases "dir_exists fs (sd, ?slug)")
    case False
    then show ?thesis
      by (simp add: save_archive_fresh url_write_article map_of_write_article_kept)
  next
    case True
    note ex = this
    show ?thesis
    proof (cases "get_existing_archive_url fs (sd, ?slug) = Some (url u)")
      case True
      then show ?thesis using ex by (simp add: save_archive_match)
    next
      case False
      from save_archive_probe[OF ex False, of html now] obtain n where
        at: "if dir_exists fs (suffixed sd ?slug n)
           then get_existing_archive_url fs (suffixed sd ?slug n) = Some (url u)
                \<and> save_archive db u html sd now fs = ((suffixed sd ?slug n, False), fs)
           else save_archive db u html sd now fs
                = ((suffixed sd ?slug n, True), write_article db u html now (suffixed sd ?slug n) fs)"
        by blast
      then show ?thesis
        by (cases "dir_exists fs (suffixed sd ?slug n)")
           (simp_all add: url_write_article map_of_write_article_kept)
    qed
  qed
qed

lemma save_archive_keeps:
  "dir_exists fs q \<Longrightarrow> map_of (snd (save_archive db u html sd now fs)) q = map_of fs q"
  using save_archive_post[of db u html sd now fs] by blast

lemma two_saves_distinct:
  assumes "url u' \<noteq> url u"
  shows "fst (fst (save_archive db u' html' sd' now' (snd (save_archive db u html sd now fs))))
           \<noteq> fst (fst (save_archive db u html sd now fs))
     \<and> get_existing_archive_url
           (snd (save_archive db u' html' sd' now' (snd (save_archive db u html sd now fs))))
           (fst (fst (save_archive db u html sd now fs))) = Some (url u)
     \<and> get_existing_archive_url
           (snd (save_archive db u' html' sd' now' (snd (save_archive db u html sd now fs))))
           (fst (fst (save_archive db u' html' sd' now' (snd (save_archive db u html sd now fs)))))
         = Some (url u')"
proof -
  let ?r = "save_archive db u html sd now fs"
  let ?r' = "save_archive db u' html' sd' now' (snd ?r)"
  have a: "get_existing_archive_url (snd ?r) (fst (fst ?r)) = Some (url u)"
    using save_archive_post[of db u html sd now fs] by simp
  then have ex: "dir_exists (snd ?r) (fst (fst ?r))" by (rule url_Some_exists)
  have b: "get_existing_archive_url (snd ?r') (fst (fst ?r')) = Some (url u')"
    using save_archive_post[of db u' html' sd' now' "snd ?r"] by simp
  have "map_of (snd ?r') (fst (fst ?r)) = map_of (snd ?r) (fst (fst ?r))"
    using ex by (rule save_archive_keeps)
  then have c: "get_existing_archive_url (snd ?r') (fst (fst ?r)) = Some (url u)"
    using a by (simp add: get_existing_archive_url_def)
  from b c assms have "fst (fst ?r') \<noteq> fst (fst ?r)" by auto
  with b c show ?thesis by simp
qed

lemma suffixed_neq_base: "suffixed sd slug k \<noteq> (sd, slug)"
  by (simp add: suffixed_def)

lemma two_saves_fresh:
  assumes t: "title u' = title u" and d: "url u' \<noteq> url u"
    and f0: "\<not> dir_exists fs (sd, slugify db (title u) 80)"
    and f1: "\<not> dir_exists fs (suffixed sd (slugify db (title u) 80) 1)"
  shows "fst (save_archive db u html sd now fs) = ((sd, slugify db (title u) 80), True)
     \<and> fst (save_archive db u' html' sd now' (snd (save_archive db u html sd now fs)))
         = (suffixed sd (slugify db (title u) 80) 1, True)"
proof -
  let ?slug = "slugify db (title u) 80"
  let ?fs1 = "write_article db u html now (sd, ?slug) fs"
  have r: "save_archive db u html sd now fs = (((sd, ?slug), True), ?fs1)"
    using f0 by (rule save_archive_fresh)
  have ex: "dir_exists ?fs1 (sd, ?slug)" by (simp add: dir_exists_write_article)
  have nm: "get_existing_archive_url ?fs1 (sd, ?slug) \<noteq> Some (url u')"
    using d by (simp add: url_write_article)
  have free: "\<not> dir_exists ?fs1 (suffixed sd ?slug 1)"
    using f1 by (simp add: dir_exists_write_article suffixed_neq_base)
  then have "probe ?fs1 sd ?slug (url u') 1 = (suffixed sd ?slug 1, True)"
    by (subst probe.simps) simp
  with ex nm have "fst (save_archive db u' html' sd now' ?fs1) = (suffixed sd ?slug 1, True)"
    by (simp add: save_archive_def Let_def t)
  with r show ?thesis by simp
qed

text \<open>
  C3: \<^verbatim>\<open>save_archive\<close> for a candidate \<open>u\<close> on any archive \<open>fs\<close>.  When the directory of the
  slug exists and its metadata URL is the candidate's, that directory is returned with
  \<^verbatim>\<open>created = False\<close> and the archive is unchanged.  When it does not exist, it is created.
  When it exists with another URL, the suffixes \<^verbatim>\<open>slug-1\<close>, \<^verbatim>\<open>slug-2\<close>, ... are probed in
  order: there is a first \<open>n\<close> whose directory is missing or has the candidate's URL, every
  earlier suffix exists with another URL, and the call returns the existing \<^verbatim>\<open>slug-n\<close>
  untouched or creates it.  In every case the returned directory's metadata URL is the
  candidate's and no existing directory is changed.  So a second candidate \<open>u'\<close> with
  another URL gets a directory different from the first one's, each with its own URL in the
  metadata; and when the two titles agree and \<^verbatim>\<open>slug\<close> and \<^verbatim>\<open>slug-1\<close> are free at the start,
  the two directories are \<^verbatim>\<open>slug\<close> and \<^verbatim>\<open>slug-1\<close>.
\<close>

theorem save_archive_collision_safe:
  "let slug = slugify db (title u) 80; dir = (sd, slug);
       r = save_archive db u html sd now fs;
       r' = save_archive db u' html' sd now' (snd r)
   in (get_existing_archive_url fs dir = Some (url u) \<longrightarrow> r = ((dir, False), fs))
    \<and> (\<not> dir_exists fs dir \<longrightarrow> r = ((dir, True), write_article db u html now dir fs))
    \<and> (dir_exists fs dir \<and> get_existing_archive_url fs dir \<noteq> Some (url u) \<longrightarrow>
         (\<exists>n\<ge>1. (\<forall>k. 1 \<le> k \<and> k < n \<longrightarrow> dir_exists fs (suffixed sd slug k)
                     \<and> get_existing_archive_url fs (suffixed sd slug k) \<noteq> Some (url u))
            \<and> (if dir_exists fs (suffixed sd slug n)
               then get_existing_archive_url fs (suffixed sd slug n) = Some (url u)
                    \<and> r = ((suffixed sd slug n, False), fs)
               else r = ((suffixed sd slug n, True),
                         write_article db u html now (suffixed sd slug n) fs))))
    \<and> get_existing_archive_url (snd r) (fst (fst r)) = Some (url u)
    \<and> (\<forall>q. dir_exists fs q \<longrightarrow> map_of (snd r) q = map_of fs q)
    \<and> (url u' \<noteq> url u \<longrightarrow>
         fst (fst r') \<noteq> fst (fst r)
         \<and> get_existing_archive_url (snd r') (fst (fst r)) = Some (url u)
         \<and> get_existing_archive_url (snd r') (fst (fst r')) = Some (url u'))
    \<and> (title u' = title u \<and> url u' \<noteq> url u \<and> \<not> dir_exists fs dir
         \<and> \<not> dir_exists fs (suffixed sd slug 1) \<longrightarrow>
         fst r = (dir, True) \<and> fst r' = (suffixed sd slug 1, True) \<and> suffixed sd slug 1 \<noteq> dir)"
  unfolding Let_def
proof (intro conjI impI)
  assume "get_existing_archive_url fs (sd, slugify db (title u) 80) = Some (url u)"
  then show "save_archive db u html sd now fs = (((sd, slugify db (title u) 80), False), fs)"
    by (rule save_archive_match)
next
  assume "\<not> dir_exists fs (sd, slugify db (title u) 80)"
  then show "save_archive db u html sd now fs
       = (((sd, slugify db (title u) 80), True),
          write_article db u html now (sd, slugify db (title u) 80) fs)"
    by (rule save_archive_fresh)
next
  assume "dir_exists fs (sd, slugify db (title u) 80)
      \<and> get_existing_archive_url fs (sd, slugify db (title u) 80) \<noteq> Some (url u)"
  then show "\<exists>n\<ge>1. (\<forall>k. 1 \<le> k \<and> k < n \<longrightarrow> dir_exists fs (suffixed sd (slugify db (title u) 80) k)
                 \<and> get_existing_archive_url fs (suffixed sd (slugify db (title u) 80) k) \<noteq> Some (url u))
        \<and> (if dir_exists fs (suffixed sd (slugify db (title u) 80) n)
           then get_existing_archive_url fs (suffixed sd (slugify db (title u) 80) n) = Some (url u)
                \<and> save_archive db u html sd now fs = ((suffixed sd (slugify db (title u) 80) n, False), fs)
           else save_archive db u html sd now fs
                = ((suffixed sd (slugify db (title u) 80) n, True),
                   write_article db u html now (suffixed sd (slugify db (title u) 80) n) fs))"
    using save_archive_probe[of fs sd db u html now] by blast
next
  show "get_existing_archive_url (snd (save_archive db u html sd now fs))
      (fst (fst (save_archive db u html sd now fs))) = Some (url u)"
    using save_archive_post[of db u html sd now fs] by simp
next
  show "\<forall>q. dir_exists fs q \<longrightarrow> map_of (snd (save_archive db u html sd now fs)) q = map_of fs q"
    using save_archive_post[of db u html sd now fs] by simp
next
  assume "url u' \<noteq> url u"
  then show "fst (fst (save_archive db u' html' sd now' (snd (save_archive db u html sd now fs))))
           \<noteq> fst (fst (save_archive db u html sd now fs))"
    using two_saves_distinct[of u' u db html' sd now' html sd now fs] by simp
next
  assume "url u' \<noteq> url u"
  then show "get_existing_archive_url
           (snd (save_archive db u' html' sd now' (snd (save_archive db u html sd now fs))))
           (fst (fst (save_archive db u html sd now fs))) = Some (url u)"
    using two_saves_distinct[of u' u db html' sd now' html sd now fs] by simp
next
  assume "url u' \<noteq> url u"
  then show "get_existing_archive_url
           (snd (save_archive db u' html' sd now' (snd (save_archive db u html sd now fs))))
           (fst (fst (save_archive db u' html' sd now' (snd (save_archive db u html sd now fs)))))
         = Some (url u')"
    using two_saves_distinct[of u' u db html' sd now' html sd now fs] by simp
next
  assume a: "title u' = title u \<and> url u' \<noteq> url u \<and> \<not> dir_exists fs (sd, slugify db (title u) 80)
         \<and> \<not> dir_exists fs (suffixed sd (slugify db (title u) 80) 1)"
  then show "fst (save_archive db u html sd now fs) = ((sd, slugify db (title u) 80), True)"
    using two_saves_fresh[of u' u fs sd db html now html' now'] by simp
  from a show "fst (save_archive db u' html' sd now' (snd (save_archive db u html sd now fs)))
         = (suffixed sd (slugify db (title u) 80) 1, True)"
    using two_saves_fresh[of u' u fs sd db html now html' now'] by simp
  show "suffixed sd (slugify db (title u) 80) 1 \<noteq> (sd, slugify db (title u) 80)"
    by (rule suffixed_neq_base)
qed

text \<open>
  The scenario: on the empty archive the two \<^verbatim>\<open>Foo\<close> candidates get \<^verbatim>\<open>foo\<close> and \<^verbatim>\<open>foo-1\<close>,
  each with its URL in the metadata, and saving the first one again returns \<^verbatim>\<open>foo\<close> with
  \<^verbatim>\<open>created = False\<close> and writes nothing.
\<close>

theorem save_archive_collision_safe_witness:
  "\<not> dir_exists [] (ustr ''bbc'', ustr ''foo'')
   \<and> \<not> dir_exists [] (ustr ''bbc'', ustr ''foo-1'')
   \<and> title cand_y = title cand_x \<and> url cand_y \<noteq> url cand_x
   \<and> fst (save_archive ascii_db cand_x page_ok (ustr ''bbc'') 1 [])
       = ((ustr ''bbc'', ustr ''foo''), True)
   \<and> fst (save_archive ascii_db cand_y page_ok (ustr ''bbc'') 2
            (snd (save_archive ascii_db cand_x page_ok (ustr ''bbc'') 1 [])))
       = ((ustr ''bbc'', ustr ''foo-1''), True)
   \<and> get_existing_archive_url
        (snd (save_archive ascii_db cand_y page_ok (ustr ''bbc'') 2
               (snd (save_archive ascii_db cand_x page_ok (ustr ''bbc'') 1 []))))
        (ustr ''bbc'', ustr ''foo'') = Some (url cand_x)
   \<and> get_existing_archive_url
        (snd (save_archive ascii_db cand_y page_ok (ustr ''bbc'') 2
               (snd (save_archive ascii_db cand_x page_ok (ustr ''bbc'') 1 []))))
        (ustr ''bbc'', ustr ''foo-1'') = Some (url cand_y)
   \<and> save_archive ascii_db cand_x page_ok (ustr ''bbc'') 3
         (snd (save_archive ascii_db cand_x page_ok (ustr ''bbc'') 1 []))
       = (((ustr ''bbc'', ustr ''foo''), False),
          snd (save_archive ascii_db cand_x page_ok (ustr ''bbc'') 1 []))"
proof -
  let ?fs1 = "snd (save_archive ascii_db cand_x page_ok (ustr ''bbc'') 1 [])"
  have slug: "slugify ascii_db (title cand_x) 80 = ustr ''foo''" by code_simp
  have suf: "suffixed (ustr ''bbc'') (ustr ''foo'') 1 = (ustr ''bbc'', ustr ''foo-1'')"
    by code_simp
  have h: "title cand_y = title cand_x \<and> url cand_y \<noteq> url cand_x
      \<and> \<not> dir_exists [] (ustr ''bbc'', ustr ''foo'')
      \<and> \<not> dir_exists [] (ustr ''bbc'', ustr ''foo-1'')"
    by code_simp
  have m: "get_existing_archive_url ?fs1 (ustr ''bbc'', ustr ''foo'') = Some (url cand_x)"
    by code_simp
  note two = save_archive_collision_safe[of ascii_db cand_x "ustr ''bbc''" page_ok 1 "[]"
      cand_y page_ok 2, unfolded Let_def slug suf]
  note again = save_archive_collision_safe[of ascii_db cand_x "ustr ''bbc''" page_ok 3 ?fs1
      cand_y page_ok 2, unfolded Let_def slug suf]
  let ?r1 = "save_archive ascii_db cand_x page_ok (ustr ''bbc'') 1 []"
  let ?r2 = "save_archive ascii_db cand_y page_ok (ustr ''bbc'') 2 ?fs1"
  from two h have a: "fst ?r1 = ((ustr ''bbc'', ustr ''foo''), True)"
    and b: "fst ?r2 = ((ustr ''bbc'', ustr ''foo-1''), True)"
    and c: "get_existing_archive_url (snd ?r2) (fst (fst ?r1)) = Some (url cand_x)"
    and d: "get_existing_archive_url (snd ?r2) (fst (fst ?r2)) = Some (url cand_y)"
    by blast+
  from a have a': "fst (fst ?r1) = (ustr ''bbc'', ustr ''foo'')" by simp
  from b have b': "fst (fst ?r2) = (ustr ''bbc'', ustr ''foo-1'')" by simp
  from again m have e: "save_archive ascii_db cand_x page_ok (ustr ''bbc'') 3 ?fs1
       = (((ustr ''bbc'', ustr ''foo''), False), ?fs1)"
    by blast
  from c d have "get_existing_archive_url (snd ?r2) (ustr ''bbc'', ustr ''foo'') = Some (url cand_x)"
    and "get_existing_archive_url (snd ?r2) (ustr ''bbc'', ustr ''foo-1'') = Some (url cand_y)"
    unfolding a' b' by simp_all
  with a b e h show ?thesis by simp
qed

section \<open>Results: domain partitioner\<close>

text \<open>The scheme does not enter the domain: the two schemes of a candidate give the same one.\<close>

lemma after_scheme_http:
  "after_scheme (ustr ''http://'' @ r) = ustr ''//'' @ r"
  "after_scheme (ustr ''https://'' @ r) = ustr ''//'' @ r"
  by (simp_all add: after_scheme_def ustr_def ascii_alpha_def scheme_char_def Let_def)

lemma get_domain_scheme:
  "get_domain (ustr ''http://'' @ r) = get_domain (ustr ''https://'' @ r)"
  by (simp add: get_domain_def urlparse_netloc_def after_scheme_http Let_def)

text \<open>
  C5: the domain is said to be the host with the prefix \<^verbatim>\<open>www.\<close> removed, and only that
  prefix.  \<^verbatim>\<open>get_domain\<close> calls \<^verbatim>\<open>replace("www.", "")\<close> on the netloc, which deletes the text
  \<^verbatim>\<open>www.\<close> wherever it occurs: the host \<^verbatim>\<open>awww.example.com\<close>, which has no such prefix, becomes
  \<^verbatim>\<open>aexample.com\<close>, the domain of another host.
\<close>

theorem get_domain_inner_www:
  "urlparse_netloc (ustr ''https://awww.example.com/x'') = ustr ''awww.example.com''
   \<and> get_domain (ustr ''https://awww.example.com/x'') = ustr ''aexample.com''
   \<and> get_domain (ustr ''https://aexample.com/x'') = ustr ''aexample.com''"
  by code_simp

section \<open>Results: fetcher\<close>

lemma emit_simps [simp]:
  "tick (emit e s) = tick s" "trace (emit e s) = trace s @ [e]" "dirs (emit e s) = dirs s"
  "reg_file (emit e s) = reg_file s" "reg (emit e s) = reg s" "success (emit e s) = success s"
  "failed (emit e s) = failed s" "failed_urls (emit e s) = failed_urls s"
  by (simp_all add: emit_def)

lemma release_simps [simp]:
  "tick (release c s) = tick s"
  "trace (release c s) = trace s @ (if c then [Close_page, Close_context] else [Close_page])"
  "dirs (release c s) = dirs s"
  "reg_file (release c s) = reg_file s" "reg (release c s) = reg s"
  "success (release c s) = success s"
  "failed (release c s) = failed s" "failed_urls (release c s) = failed_urls s"
  by (simp_all add: release_def Let_def)

lemma emit_advance: "emit e (advance n evs s) = advance n (evs @ [e]) s"
  by (simp add: emit_def advance_def)

lemma release_advance:
  "release c (advance n evs s)
     = advance n (evs @ (if c then [Close_page, Close_context] else [Close_page])) s"
  by (simp add: release_def emit_def advance_def Let_def)

lemma tick_advance0: "s\<lparr>tick := Suc (tick s)\<rparr> = advance 1 [] s"
  by (simp add: advance_def)

lemma strategies_default:
  "\<not> str_contains (ustr ''inmediahk.net'') v \<Longrightarrow>
   select_strategy v 0 = Domcontentloaded \<and> select_strategy v 1 = Networkidle
   \<and> select_strategy v 2 = No_http2 \<and> select_strategy v (Suc (Suc (Suc n))) = Requests_fallback"
  by (simp add: select_strategy_def strategies_def)

lemma strategies_inmedia:
  "str_contains (ustr ''inmediahk.net'') v \<Longrightarrow> select_strategy v n = Uc_fallback"
  by (simp add: select_strategy_def strategies_def)

lemma retry_step:
  assumes st: "select_strategy (url u) retries = st" "st \<noteq> Requests_fallback" "st \<noteq> Uc_fallback"
    and out: "retryable (attempt w (tick s))"
  shows "scrape_url_async w cfg u retries b s =
     (let c = (st = No_http2 \<and> b \<and> \<not> new_context_fails w (tick s));
          s3 = advance 1 ((if c then [New_context] else []) @ [New_page, Fetch st (url u)]) s
      in if int retries < max_retries (get_site_config (url u) cfg)
         then (case scrape_url_async w cfg u (retries + 1) b (emit (Backoff (2 ^ retries)) s3) of
                 (r, s4) \<Rightarrow> (r, release c s4))
         else (Inr ([], False), release c s3))"
proof (cases "attempt w (tick s)")
  case (Content html)
  with out st show ?thesis
    by (subst scrape_url_async.simps)
       (simp add: Let_def tick_advance0 emit_advance ustr_def split: prod.splits)
next
  case Timeout
  with out st show ?thesis
    by (subst scrape_url_async.simps)
       (simp add: Let_def tick_advance0 emit_advance split: prod.splits)
next
  case (Failure m)
  with out st show ?thesis
    by (subst scrape_url_async.simps)
       (simp add: Let_def tick_advance0 emit_advance split: prod.splits)
next
  case (No_page m)
  with out show ?thesis by simp
qed

lemma advance_advance: "advance n evs (advance m evs' s) = advance (m + n) (evs' @ evs) s"
  by (simp add: advance_def add.assoc)

lemma tick_advance [simp]: "tick (advance n evs s) = tick s + n"
  by (simp add: advance_def)

text \<open>
  C2 (amended): for a URL of the default chain (one that does not contain
  \<^verbatim>\<open>inmediahk.net\<close>) whose domain has \<^verbatim>\<open>max_retries = 2\<close>, when every attempt fails with a
  failure that is retried, \<^verbatim>\<open>scrape_url_async\<close> makes exactly three fetch attempts (fast load,
  full load, the context without HTTP/2) and then reports the failure; between the
  attempts it sleeps \<open>2 ^ retry\<close> seconds, 1 and then 2, with no jitter added, and these
  delays increase strictly.  The pages are closed after the last attempt has returned.
\<close>

theorem retry_exhaustion:
  assumes url: "\<not> str_contains (ustr ''inmediahk.net'') (url u)"
    and max: "max_retries (get_site_config (url u) cfg) = 2"
    and fail: "\<forall>n. retryable (attempt w n)"
  shows "let c = (browser \<and> \<not> new_context_fails w (tick s + 2));
             evs = [New_page, Fetch Domcontentloaded (url u), Backoff (2 ^ 0),
                    New_page, Fetch Networkidle (url u), Backoff (2 ^ 1)]
                   @ (if c then [New_context] else [])
                   @ [New_page, Fetch No_http2 (url u)]
                   @ (if c then [Close_page, Close_context] else [Close_page])
                   @ [Close_page, Close_page]
         in scrape_url_async w cfg u 0 browser s = (Inr ([], False), advance 3 evs s)
            \<and> length (filter is_fetch evs) = 3
            \<and> backoffs evs = [2 ^ 0, 2 ^ 1]
            \<and> sorted_wrt (<) (backoffs evs)"
proof -
  let ?c = "browser \<and> \<not> new_context_fails w (tick s + 2)"
  let ?s1 = "emit (Backoff (2 ^ 0)) (advance 1 [New_page, Fetch Domcontentloaded (url u)] s)"
  let ?s2 = "emit (Backoff (2 ^ 1)) (advance 1 [New_page, Fetch Networkidle (url u)] ?s1)"
  from strategies_default[OF url] have st:
    "select_strategy (url u) 0 = Domcontentloaded" "select_strategy (url u) 1 = Networkidle"
    "select_strategy (url u) 2 = No_http2" by simp_all
  have third: "scrape_url_async w cfg u 2 browser ?s2 =
      (Inr ([], False), release ?c (advance 1 ((if ?c then [New_context] else []) @ [New_page, Fetch No_http2 (url u)]) ?s2))"
    using retry_step[OF st(3), where w=w and s="?s2" and b=browser and cfg=cfg] fail max
    by (simp add: Let_def emit_advance advance_advance)
  have second: "scrape_url_async w cfg u 1 browser ?s1 =
      (case scrape_url_async w cfg u 2 browser ?s2 of (r, s4) \<Rightarrow> (r, release False s4))"
    using retry_step[OF st(2), where w=w and s="?s1" and b=browser and cfg=cfg] fail max
    by (simp add: Let_def numeral_2_eq_2)
  have first: "scrape_url_async w cfg u 0 browser s =
      (case scrape_url_async w cfg u 1 browser ?s1 of (r, s4) \<Rightarrow> (r, release False s4))"
    using retry_step[OF st(1), where w=w and s="s" and b=browser and cfg=cfg] fail max
    by (simp add: Let_def)
  have "scrape_url_async w cfg u 0 browser s =
      (Inr ([], False), release False (release False (release ?c
          (advance 1 ((if ?c then [New_context] else []) @ [New_page, Fetch No_http2 (url u)]) ?s2))))"
    by (simp only: first second third prod.case)
  then show ?thesis
    by (simp add: Let_def emit_advance advance_advance release_advance numeral_3_eq_3)
qed

text \<open>
  The candidate \<^verbatim>\<open>https://a.example/x\<close> with \<^verbatim>\<open>max_retries = 2\<close> for \<^verbatim>\<open>a.example\<close>, every attempt
  timing out.
\<close>

theorem retry_exhaustion_witness:
  "\<not> str_contains (ustr ''inmediahk.net'') (url cand_x)
   \<and> max_retries (get_site_config (url cand_x) config_two_retries) = 2
   \<and> retryable (attempt (world_of (\<lambda>n. Timeout)) 0)
   \<and> scrape_url_async (world_of (\<lambda>n. Timeout)) config_two_retries cand_x 0 True start_state
       = (Inr ([], False),
          advance 3
            [New_page, Fetch Domcontentloaded (url cand_x), Backoff 1,
             New_page, Fetch Networkidle (url cand_x), Backoff 2,
             New_context, New_page, Fetch No_http2 (url cand_x), Close_page, Close_context,
             Close_page, Close_page] start_state)"
proof -
  have a: "\<not> str_contains (ustr ''inmediahk.net'') (url cand_x)" by code_simp
  have b: "max_retries (get_site_config (url cand_x) config_two_retries) = 2" by code_simp
  have c: "\<forall>n. retryable (attempt (world_of (\<lambda>n. Timeout)) n)" by (simp add: world_of_def)
  have d: "\<not> new_context_fails (world_of (\<lambda>n. Timeout)) (tick start_state + 2)"
    by (simp add: world_of_def)
  from retry_exhaustion[OF a b c, of True start_state] d a b c show ?thesis
    by (simp add: Let_def)
qed

text \<open>
  C2 (as stated, for every URL whose domain has \<^verbatim>\<open>max_retries = 2\<close>): a URL of
  \<^verbatim>\<open>inmediahk.net\<close> is pinned to the Chrome driver, whose failure is returned at once, so
  with \<^verbatim>\<open>max_retries = 2\<close> and every attempt failing there is one fetch attempt, not three,
  and no back-off.
\<close>

theorem pinned_site_single_attempt:
  "max_retries (get_site_config (url cand_inmedia) config_two_retries) = 2
   \<and> scrape_url_async (world_of (\<lambda>n. Timeout)) config_two_retries cand_inmedia 0 True start_state
       = (Inr ([], False), advance 1 [New_driver, Fetch Uc_fallback (url cand_inmedia)] start_state)
   \<and> length (filter is_fetch [New_driver, Fetch Uc_fallback (url cand_inmedia)]) = 1"
  by code_simp

section \<open>Results: download failures\<close>

lemma record_failure_simps [simp]:
  "tick (record_failure u s) = tick s" "trace (record_failure u s) = trace s"
  "dirs (record_failure u s) = dirs s" "reg_file (record_failure u s) = reg_file s"
  "reg (record_failure u s) = reg s" "success (record_failure u s) = success s"
  "failed (record_failure u s) = failed s + 1"
  "failed_urls (record_failure u s) = failed_urls s @ [url u]"
  by (simp_all add: record_failure_def)

lemma advance_simps [simp]:
  "trace (advance n evs s) = trace s @ evs" "dirs (advance n evs s) = dirs s"
  "reg_file (advance n evs s) = reg_file s" "reg (advance n evs s) = reg s"
  "success (advance n evs s) = success s" "failed (advance n evs s) = failed s"
  "failed_urls (advance n evs s) = failed_urls s"
  by (simp_all add: advance_def)

lemma download_first_attempt:
  assumes "attempt w (tick s) = Failure m"
    and "str_contains (ustr ''Download is starting'') m"
  shows "scrape_url_async w cfg u 0 b s = (Inr ([], False), advance 1 (first_attempt_only (url u)) s)"
proof (cases "str_contains (ustr ''inmediahk.net'') (url u)")
  case True
  with assms show ?thesis
    by (subst scrape_url_async.simps)
       (simp add: Let_def strategies_inmedia scrape_with_uc_inmedia_def first_attempt_only_def
          tick_advance0 emit_advance)
next
  case False
  with assms show ?thesis
    by (subst scrape_url_async.simps)
       (simp add: Let_def strategies_default first_attempt_only_def
          tick_advance0 emit_advance release_advance)
qed

lemma first_attempt_only_counts:
  "length (filter is_fetch (first_attempt_only v)) = 1 \<and> backoffs (first_attempt_only v) = []"
  by (simp add: first_attempt_only_def)

lemma download_loop_step:
  assumes "attempt w (tick s) = Failure m"
    and "str_contains (ustr ''Download is starting'') m"
  shows "domain_loop w db cfg urls delay (u # rest) s =
     (case index_of urls u of
        None \<Rightarrow> (Inl ValueError, record_failure u (advance 1 (first_attempt_only (url u)) s))
      | Some i \<Rightarrow>
          domain_loop w db cfg urls delay rest
            (if int i < int (length urls) - 1
             then emit (Politeness delay) (record_failure u (advance 1 (first_attempt_only (url u)) s))
             else record_failure u (advance 1 (first_attempt_only (url u)) s)))"
  using download_first_attempt[OF assms, of cfg u True] by (simp del: One_nat_def)

lemma group_single: "group_urls_by_domain [u] = [(get_domain (url u), [u])]"
  by (simp add: group_urls_by_domain_def)

lemma download_run:
  assumes dl: "attempt w (tick s) = Failure m" "str_contains (ustr ''Download is starting'') m"
    and r: "load_registry (reg_file s) = Inr r" and new: "map_of (scraped_urls r) (url u) = None"
  shows "run_scraper_async w db cfg [u] False None s =
     (Inr \<lparr>res_success = 0, res_failed = 1, res_failed_urls = [url u]\<rparr>,
      emit Close_context (record_failure u (advance 1 (first_attempt_only (url u))
        (emit New_context (s\<lparr>reg := r, success := 0, failed := 0, failed_urls := []\<rparr>)))))"
proof -
  let ?s0 = "emit New_context (s\<lparr>reg := r, success := 0, failed := 0, failed_urls := []\<rparr>)"
  have "attempt w (tick ?s0) = Failure m" using dl by simp
  from download_loop_step[OF this dl(2), of db cfg "[u]" _ u "[]"]
  have "domain_loop w db cfg [u] (delay_seconds (get_site_config (url u) cfg)) [u] ?s0 =
      (Inr (), record_failure u (advance 1 (first_attempt_only (url u)) ?s0))"
    by simp
  then show ?thesis using r new
    by (simp add: run_scraper_async_def filter_new_urls_def group_single scrape_domain_queue_def
        Let_def)
qed

text \<open>
  C4: when the first attempt at a URL fails with an error whose message announces a
  download, \<^verbatim>\<open>scrape_url_async\<close> returns the failure after that one attempt, with no
  back-off and no retry; the worker's loop counts one failure, appends the URL to the
  failed URLs, leaves the registry and its file alone and goes on with the rest of the
  queue; and a run on that single candidate reports \<^verbatim>\<open>success = 0\<close>, \<^verbatim>\<open>failed = 1\<close> and the
  URL as failed, with the registry file and the archive unchanged, so that the URL is
  still absent from the registry.
\<close>

theorem download_failure_terminal:
  assumes dl: "attempt w (tick s) = Failure m"
    and msg: "str_contains (ustr ''Download is starting'') m"
  shows "scrape_url_async w cfg u 0 True s
           = (Inr ([], False), advance 1 (first_attempt_only (url u)) s)
     \<and> length (filter is_fetch (first_attempt_only (url u))) = 1
     \<and> backoffs (first_attempt_only (url u)) = []
     \<and> domain_loop w db cfg urls delay (u # rest) s =
         (case index_of urls u of
            None \<Rightarrow> (Inl ValueError, record_failure u (advance 1 (first_attempt_only (url u)) s))
          | Some i \<Rightarrow>
              domain_loop w db cfg urls delay rest
                (if int i < int (length urls) - 1
                 then emit (Politeness delay)
                        (record_failure u (advance 1 (first_attempt_only (url u)) s))
                 else record_failure u (advance 1 (first_attempt_only (url u)) s)))
     \<and> failed (record_failure u (advance 1 (first_attempt_only (url u)) s)) = failed s + 1
     \<and> failed_urls (record_failure u (advance 1 (first_attempt_only (url u)) s))
         = failed_urls s @ [url u]
     \<and> reg (record_failure u (advance 1 (first_attempt_only (url u)) s)) = reg s
     \<and> reg_file (record_failure u (advance 1 (first_attempt_only (url u)) s)) = reg_file s
     \<and> (load_registry (reg_file s) = Inr r \<and> map_of (scraped_urls r) (url u) = None \<longrightarrow>
          fst (run_scraper_async w db cfg [u] False None s)
            = Inr \<lparr>res_success = 0, res_failed = 1, res_failed_urls = [url u]\<rparr>
          \<and> reg_file (snd (run_scraper_async w db cfg [u] False None s)) = reg_file s
          \<and> reg (snd (run_scraper_async w db cfg [u] False None s)) = r
          \<and> dirs (snd (run_scraper_async w db cfg [u] False None s)) = dirs s
          \<and> trace (snd (run_scraper_async w db cfg [u] False None s))
              = trace s @ [New_context] @ first_attempt_only (url u) @ [Close_context])"
proof -
  have a: "scrape_url_async w cfg u 0 True s
      = (Inr ([], False), advance 1 (first_attempt_only (url u)) s)"
    using dl msg by (rule download_first_attempt)
  have b: "domain_loop w db cfg urls delay (u # rest) s =
         (case index_of urls u of
            None \<Rightarrow> (Inl ValueError, record_failure u (advance 1 (first_attempt_only (url u)) s))
          | Some i \<Rightarrow>
              domain_loop w db cfg urls delay rest
                (if int i < int (length urls) - 1
                 then emit (Politeness delay)
                        (record_failure u (advance 1 (first_attempt_only (url u)) s))
                 else record_failure u (advance 1 (first_attempt_only (url u)) s)))"
    using dl msg by (rule download_loop_step)
  have c: "load_registry (reg_file s) = Inr r \<and> map_of (scraped_urls r) (url u) = None \<longrightarrow>
          fst (run_scraper_async w db cfg [u] False None s)
            = Inr \<lparr>res_success = 0, res_failed = 1, res_failed_urls = [url u]\<rparr>
          \<and> reg_file (snd (run_scraper_async w db cfg [u] False None s)) = reg_file s
          \<and> reg (snd (run_scraper_async w db cfg [u] False None s)) = r
          \<and> dirs (snd (run_scraper_async w db cfg [u] False None s)) = dirs s
          \<and> trace (snd (run_scraper_async w db cfg [u] False None s))
              = trace s @ [New_context] @ first_attempt_only (url u) @ [Close_context]"
    using download_run[OF dl msg, of r u db cfg] by simp
  from a b c first_attempt_only_counts[of "url u"] show ?thesis
    by (simp del: One_nat_def)
qed

text \<open>
  The candidate \<^verbatim>\<open>https://a.example/x\<close> on the first run, the fetch answering
  \<^verbatim>\<open>Download is starting\<close>.
\<close>

theorem download_failure_terminal_witness:
  "attempt (world_of (\<lambda>n. Failure (ustr ''Download is starting''))) (tick start_state)
     = Failure (ustr ''Download is starting'')
   \<and> str_contains (ustr ''Download is starting'') (ustr ''Download is starting'')
   \<and> load_registry (reg_file start_state) = Inr empty_registry
   \<and> map_of (scraped_urls empty_registry) (url cand_x) = None
   \<and> scrape_url_async (world_of (\<lambda>n. Failure (ustr ''Download is starting''))) default_config
        cand_x 0 True start_state
       = (Inr ([], False),
          advance 1 [New_page, Fetch Domcontentloaded (url cand_x), Close_page] start_state)
   \<and> fst (run_scraper_async (world_of (\<lambda>n. Failure (ustr ''Download is starting''))) ascii_db
             default_config [cand_x] False None start_state)
       = Inr \<lparr>res_success = 0, res_failed = 1, res_failed_urls = [url cand_x]\<rparr>
   \<and> reg_file (snd (run_scraper_async (world_of (\<lambda>n. Failure (ustr ''Download is starting'')))
             ascii_db default_config [cand_x] False None start_state)) = No_file"
proof -
  let ?w = "world_of (\<lambda>n. Failure (ustr ''Download is starting''))"
  have dl: "attempt ?w (tick start_state) = Failure (ustr ''Download is starting'')"
    by (simp add: world_of_def)
  have msg: "str_contains (ustr ''Download is starting'') (ustr ''Download is starting'')"
    by code_simp
  have r: "load_registry (reg_file start_state) = Inr empty_registry"
    by (simp add: start_state_def)
  have new: "map_of (scraped_urls empty_registry) (url cand_x) = None"
    by (simp add: empty_registry_def)
  have ev: "first_attempt_only (url cand_x)
      = [New_page, Fetch Domcontentloaded (url cand_x), Close_page]"
    by code_simp
  have f: "reg_file start_state = No_file" by (simp add: start_state_def)
  from download_failure_terminal[OF dl msg, of default_config cand_x ascii_db "[cand_x]" 3 "[]"
      empty_registry] dl msg r new
  show ?thesis unfolding ev f by simp
qed

section \<open>Results: failing inputs of the fetcher and the worker\<close>

text \<open>
  C6: the Fetcher is said never to let a fault escape and always to release what it opened.
  In \<^verbatim>\<open>scrape_url_async\<close> the call \<^verbatim>\<open>use_context.new_page()\<close> stands before the \<^verbatim>\<open>try\<close>
  block: when it raises on the first attempt the exception leaves the function; when it
  raises on the third attempt, the context that was just created for that attempt is never
  closed and the exception leaves through the two earlier handlers.  In
  \<^verbatim>\<open>scrape_with_uc_inmedia\<close> a driver whose page load fails is never closed.
\<close>

theorem fetcher_fault_escapes:
  "scrape_url_async (world_of (\<lambda>n. No_page (ustr ''Target closed''))) default_config cand_x 0 True
      start_state
     = (Inl (PlaywrightError (ustr ''Target closed'')), advance 1 [] start_state)
   \<and> scrape_url_async (world_of (\<lambda>n. if n < 2 then Timeout else No_page (ustr ''Target closed'')))
        default_config cand_x 0 True start_state
     = (Inl (PlaywrightError (ustr ''Target closed'')),
        advance 3 [New_page, Fetch Domcontentloaded (url cand_x), Backoff 1,
                   New_page, Fetch Networkidle (url cand_x), Backoff 2,
                   New_context, Close_page, Close_page] start_state)
   \<and> scrape_url_async (world_of (\<lambda>n. Timeout)) default_config cand_inmedia 0 True start_state
     = (Inr ([], False), advance 1 [New_driver, Fetch Uc_fallback (url cand_inmedia)] start_state)"
  by code_simp

text \<open>
  C7: a successful fetch is said to yield at least 500 characters under every strategy.
  Only the rendering tactics test the length.  With the default configuration
  (\<^verbatim>\<open>max_retries = 3\<close>) the fourth attempt is the plain HTTP GET, and its two-character answer
  is returned as a success; so is a one-character answer of the pinned Chrome driver.
\<close>

theorem short_content_accepted:
  "fst (scrape_url_async (world_of (\<lambda>n. if n < 3 then Timeout else Content (ustr ''ok'')))
          default_config cand_x 0 True start_state)
     = Inr (ustr ''ok'', True)
   \<and> fst (scrape_url_async (world_of (\<lambda>n. Content (ustr ''x''))) default_config cand_inmedia 0 True
          start_state)
     = Inr (ustr ''x'', True)
   \<and> length (ustr ''ok'') < 500 \<and> length (ustr ''x'') < 500"
  by code_simp

text \<open>
  C9: the politeness delay is said never to follow the last request of a queue, duplicates
  included.  The worker tests \<^verbatim>\<open>urls.index(url_info) < len(urls) - 1\<close>, and \<^verbatim>\<open>index\<close> finds the
  first equal entry: in the queue of one candidate listed twice, the second (last) request
  is followed by a delay.
\<close>

theorem delay_after_last_duplicate:
  "scrape_domain_queue (world_of (\<lambda>n. Failure (ustr ''Download is starting''))) ascii_db
      default_config [cand_x, cand_x] start_state
     = (Inr (),
        (advance 2 [New_context,
                    New_page, Fetch Domcontentloaded (url cand_x), Close_page, Politeness 3,
                    New_page, Fetch Domcontentloaded (url cand_x), Close_page, Politeness 3,
                    Close_context] start_state)
          \<lparr>failed := 2, failed_urls := [url cand_x, url cand_x]\<rparr>)"
  by code_simp

section \<open>Results: runs of the scheduler\<close>

lemma fetched_append [simp]: "fetched (xs @ ys) = fetched xs @ fetched ys"
  by (induction xs rule: fetched.induct) auto

lemma requests_step:
  "select_strategy (url u) retries = Requests_fallback \<Longrightarrow>
   snd (scrape_url_async w cfg u retries b s) = advance 1 [Fetch Requests_fallback (url u)] s"
  by (subst scrape_url_async.simps)
     (simp add: Let_def scrape_with_requests_def tick_advance0 emit_advance split: outcome.splits)

lemma uc_step:
  "select_strategy (url u) retries = Uc_fallback \<Longrightarrow>
   snd (scrape_url_async w cfg u retries b s) =
     advance 1 (case attempt w (tick s) of
                  No_page m \<Rightarrow> []
                | Content text \<Rightarrow> [New_driver, Fetch Uc_fallback (url u), Close_driver]
                | _ \<Rightarrow> [New_driver, Fetch Uc_fallback (url u)]) s"
  by (subst scrape_url_async.simps)
     (simp add: Let_def scrape_with_uc_inmedia_def tick_advance0 emit_advance split: outcome.splits)

lemma no_page_step:
  assumes "select_strategy (url u) retries = st" "st \<noteq> Requests_fallback" "st \<noteq> Uc_fallback"
    and "attempt w (tick s) = No_page m"
  shows "scrape_url_async w cfg u retries b s =
     (Inl (PlaywrightError m),
      advance 1 (if st = No_http2 \<and> b \<and> \<not> new_context_fails w (tick s)
                 then [New_context] else []) s)"
  using assms
  by (subst scrape_url_async.simps) (simp add: Let_def tick_advance0 emit_advance)

lemma terminal_step:
  assumes st: "select_strategy (url u) retries = st" "st \<noteq> Requests_fallback" "st \<noteq> Uc_fallback"
    and out: "\<not> retryable (attempt w (tick s))" "\<forall>m. attempt w (tick s) \<noteq> No_page m"
  shows "scrape_url_async w cfg u retries b s =
     (let c = (st = No_http2 \<and> b \<and> \<not> new_context_fails w (tick s))
      in (Inr (case attempt w (tick s) of Content html \<Rightarrow> (html, True) | _ \<Rightarrow> ([], False)),
          release c (advance 1 ((if c then [New_context] else []) @ [New_page, Fetch st (url u)]) s)))"
proof (cases "attempt w (tick s)")
  case (Content html)
  with out st show ?thesis
    by (subst scrape_url_async.simps) (simp add: Let_def tick_advance0 emit_advance)
next
  case Timeout
  with out show ?thesis by simp
next
  case (Failure m)
  with out st show ?thesis
    by (subst scrape_url_async.simps) (simp add: Let_def tick_advance0 emit_advance)
next
  case (No_page m)
  with out show ?thesis by simp
qed

lemma snd_case_release: "snd (case p of (r, s4) \<Rightarrow> (r, f s4)) = f (snd p)"
  by (cases p) simp

lemma scrape_url_async_advances:
  "\<exists>n evs. snd (scrape_url_async w cfg u retries b s) = advance n evs s
      \<and> set (fetched evs) \<subseteq> {url u}"
proof (induction "nat (max_retries (get_site_config (url u) cfg) - int retries)"
    arbitrary: retries s rule: less_induct)
  case less
  let ?st = "select_strategy (url u) retries"
  let ?out = "attempt w (tick s)"
  let ?c = "?st = No_http2 \<and> b \<and> \<not> new_context_fails w (tick s)"
  let ?s3 = "advance 1 ((if ?c then [New_context] else []) @ [New_page, Fetch ?st (url u)]) s"
  let ?s3b = "advance 1 (((if ?c then [New_context] else []) @ [New_page, Fetch ?st (url u)])
      @ [Backoff (2 ^ retries)]) s"
  have eqb: "emit (Backoff (2 ^ retries)) ?s3 = ?s3b" by (simp only: emit_advance)
  show ?case
  proof (cases "?st = Requests_fallback")
    case True
    then show ?thesis using requests_step[where u=u and retries=retries and w=w and cfg=cfg and b=b and s=s]
      by (intro exI[of _ 1] exI[of _ "[Fetch Requests_fallback (url u)]"]) simp
  next
    case False
    note nr = this
    show ?thesis
    proof (cases "?st = Uc_fallback")
      case True
      then show ?thesis using uc_step[where u=u and retries=retries and w=w and cfg=cfg and b=b and s=s]
        by (intro exI[of _ 1]) (auto split: outcome.splits)
    next
      case False
      note nu = this
      show ?thesis
      proof (cases "retryable ?out")
        case True
        note rt = this
        show ?thesis
        proof (cases "int retries < max_retries (get_site_config (url u) cfg)")
          case True
          then have "nat (max_retries (get_site_config (url u) cfg) - int (retries + 1))
              < nat (max_retries (get_site_config (url u) cfg) - int retries)" by simp
          from less[OF this, of ?s3b]
          obtain n evs where
            nx: "snd (scrape_url_async w cfg u (retries + 1) b ?s3b) = advance n evs ?s3b"
            and fe: "set (fetched evs) \<subseteq> {url u}" by blast
          have "scrape_url_async w cfg u retries b s =
              (case scrape_url_async w cfg u (retries + 1) b (emit (Backoff (2 ^ retries)) ?s3) of
                 (r, s4) \<Rightarrow> (r, release ?c s4))"
            using True by (simp only: retry_step[OF refl nr nu rt, unfolded Let_def] if_True)
          then have "snd (scrape_url_async w cfg u retries b s) =
              release ?c (snd (scrape_url_async w cfg u (retries + 1) b ?s3b))"
            by (simp only: snd_case_release eqb)
          then have "snd (scrape_url_async w cfg u retries b s) = release ?c (advance n evs ?s3b)"
            by (simp only: nx)
          also have "release ?c (advance n evs ?s3b) =
              advance (1 + n) (((if ?c then [New_context] else []) @ [New_page, Fetch ?st (url u)])
                 @ [Backoff (2 ^ retries)] @ evs
                 @ (if ?c then [Close_page, Close_context] else [Close_page])) s"
            by (simp add: advance_advance release_advance)
          finally have "snd (scrape_url_async w cfg u retries b s) =
              advance (1 + n) (((if ?c then [New_context] else []) @ [New_page, Fetch ?st (url u)])
                 @ [Backoff (2 ^ retries)] @ evs
                 @ (if ?c then [Close_page, Close_context] else [Close_page])) s" .
          moreover have "set (fetched (((if ?c then [New_context] else []) @ [New_page, Fetch ?st (url u)])
                 @ [Backoff (2 ^ retries)] @ evs
                 @ (if ?c then [Close_page, Close_context] else [Close_page]))) \<subseteq> {url u}"
            using fe by auto
          ultimately show ?thesis by blast
        next
          case False
          then have "scrape_url_async w cfg u retries b s = (Inr ([], False), release ?c ?s3)"
            by (simp only: retry_step[OF refl nr nu rt, unfolded Let_def] if_False)
          then have "snd (scrape_url_async w cfg u retries b s) = release ?c ?s3"
            by (simp only: snd_conv)
          then have "snd (scrape_url_async w cfg u retries b s) =
              advance 1 (((if ?c then [New_context] else []) @ [New_page, Fetch ?st (url u)])
                 @ (if ?c then [Close_page, Close_context] else [Close_page])) s"
            by (simp only: release_advance)
          moreover have "set (fetched (((if ?c then [New_context] else []) @ [New_page, Fetch ?st (url u)])
                 @ (if ?c then [Close_page, Close_context] else [Close_page]))) \<subseteq> {url u}"
            by auto
          ultimately show ?thesis by blast
        qed
      next
        case False
        note nrt = this
        show ?thesis
        proof (cases "\<exists>m. ?out = No_page m")
          case True
          then obtain m where "?out = No_page m" ..
          from no_page_step[OF refl nr nu this, where cfg=cfg and b=b] show ?thesis
            by (intro exI[of _ 1] exI[of _ "if ?c then [New_context] else []"]) auto
        next
          case False
          then have "\<forall>m. ?out \<noteq> No_page m" by simp
          from terminal_step[OF refl nr nu nrt this, where cfg=cfg and b=b, unfolded Let_def]
          have "snd (scrape_url_async w cfg u retries b s) = release ?c ?s3"
            by (simp only: snd_conv)
          then have "snd (scrape_url_async w cfg u retries b s) =
              advance 1 (((if ?c then [New_context] else []) @ [New_page, Fetch ?st (url u)])
                 @ (if ?c then [Close_page, Close_context] else [Close_page])) s"
            by (simp only: release_advance)
          moreover have "set (fetched (((if ?c then [New_context] else []) @ [New_page, Fetch ?st (url u)])
                 @ (if ?c then [Close_page, Close_context] else [Close_page]))) \<subseteq> {url u}"
            by auto
          ultimately show ?thesis by blast
        qed
      qed
    qed
  qed
qed

lemma grows_refl: "grows U s s"
  by (simp add: grows_def)

lemma grows_trans: "grows U s s1 \<Longrightarrow> grows V s1 s2 \<Longrightarrow> grows (U \<union> V) s s2"
  unfolding grows_def by (elim conjE exE) (auto intro!: exI[of _ "_ @ _"])

lemma grows_mono: "grows U s s' \<Longrightarrow> U \<subseteq> V \<Longrightarrow> grows V s s'"
  unfolding grows_def by blast

lemma grows_advance: "set (fetched evs) \<subseteq> U \<Longrightarrow> grows U s (advance n evs s)"
  by (auto simp: grows_def)

lemma grows_scrape: "grows {url u} s (snd (scrape_url_async w cfg u retries b s))"
  using scrape_url_async_advances[of w cfg u retries b s] by (auto intro: grows_advance)

lemma scrape_keeps_failed: "failed (snd (scrape_url_async w cfg u retries b s)) = failed s"
  using scrape_url_async_advances[of w cfg u retries b s] by auto

lemma grows_emit: "fetched [e] = [] \<Longrightarrow> grows U s (emit e s)"
  by (simp add: grows_def)

lemma grows_record_failure: "grows U s (record_failure u s)"
  by (simp add: grows_def)

lemma recorded_update:
  "recorded (r\<lparr>scraped_urls := AList.update k e (scraped_urls r)\<rparr>) v = (v = k \<or> recorded r v)"
  by (simp add: recorded_def update_conv')

lemma archive_and_record_props:
  assumes "archive_and_record w db u html s = Inr s2"
  shows "grows U s s2 \<and> failed s2 = failed s \<and> recorded (reg s2) (url u)"
  using assms
  by (auto simp: archive_and_record_def Let_def save_registry_def grows_def recorded_def
      update_conv' split: option.splits)

lemma grows_failed: "grows U s s' \<Longrightarrow> failed s \<le> failed s'"
  by (simp add: grows_def)

lemma grows_recorded: "grows U s s' \<Longrightarrow> recorded (reg s) v \<Longrightarrow> recorded (reg s') v"
  by (simp add: grows_def)

lemma domain_loop_props:
  "domain_loop w db cfg urls delay rest s = (res, s') \<Longrightarrow>
   grows (url ` set rest) s s'
   \<and> (res = Inr () \<and> failed s' = failed s \<longrightarrow> (\<forall>u\<in>set rest. recorded (reg s') (url u)))"
proof (induction rest arbitrary: s)
  case Nil
  then show ?case by (simp add: grows_refl)
next
  case (Cons u rest)
  obtain r1 s1 where f: "scrape_url_async w cfg u 0 True s = (r1, s1)" by (cases "scrape_url_async w cfg u 0 True s")
  have g1: "grows {url u} s s1" using grows_scrape[of u s w cfg 0 True] f by simp
  have f1: "failed s1 = failed s" using scrape_keeps_failed[of w cfg u 0 True s] f by simp
  have sub: "{url u} \<subseteq> url ` set (u # rest)" by simp
  show ?case
  proof (cases r1)
    case (Inl e)
    with Cons.prems f have "s' = s1" "res = Inl e" by auto
    with g1 sub show ?thesis by (auto intro: grows_mono)
  next
    case (Inr p)
    obtain html ok where p: "p = (html, ok)" by (cases p)
    let ?step = "if ok \<and> html \<noteq> [] then archive_and_record w db u html s1
                 else Inr (record_failure u s1)"
    show ?thesis
    proof (cases ?step)
      case (Inl e)
      with Cons.prems f Inr p have "s' = s1" "res = Inl e" by (auto split: if_splits)
      with g1 sub show ?thesis by (auto intro: grows_mono)
    next
      case (Inr s2)
      note step = this
      have g2: "grows {} s1 s2"
        using step archive_and_record_props[of w db u html s1 s2 "{}"] grows_record_failure[of "{}" s1 u]
        by (auto split: if_splits)
      have rec: "failed s2 = failed s1 \<Longrightarrow> recorded (reg s2) (url u)"
        using step archive_and_record_props[of w db u html s1 s2 "{}"]
        by (auto split: if_splits)
      from grows_trans[OF g1 g2] have g12: "grows {url u} s s2" by simp
      show ?thesis
      proof (cases "index_of urls u")
        case None
        with Cons.prems f \<open>r1 = Inr p\<close> p step have "s' = s2" "res = Inl ValueError" by auto
        with g12 sub show ?thesis by (auto intro: grows_mono)
      next
        case (Some i)
        let ?s3 = "if int i < int (length urls) - 1 then emit (Politeness delay) s2 else s2"
        have g3: "grows {} s2 ?s3" by (simp add: grows_emit grows_refl)
        have f3: "failed ?s3 = failed s2" by simp
        have r3: "reg ?s3 = reg s2" by simp
        from Cons.prems f \<open>r1 = Inr p\<close> p step Some
        have loop: "domain_loop w db cfg urls delay rest ?s3 = (res, s')" by simp
        from Cons.IH[OF loop] have g4: "grows (url ` set rest) ?s3 s'"
          and r4: "res = Inr () \<and> failed s' = failed ?s3 \<longrightarrow> (\<forall>u\<in>set rest. recorded (reg s') (url u))"
          by simp_all
        from grows_trans[OF g12 grows_trans[OF g3 g4]]
        have g: "grows (url ` set (u # rest)) s s'" by (auto intro: grows_mono)
        have "res = Inr () \<and> failed s' = failed s \<longrightarrow> (\<forall>v\<in>set (u # rest). recorded (reg s') (url v))"
        proof
          assume a: "res = Inr () \<and> failed s' = failed s"
          have le1: "failed s1 \<le> failed s2" using g2 by (rule grows_failed)
          have le2: "failed ?s3 \<le> failed s'" using g4 by (rule grows_failed)
          from a f1 f3 le1 le2 have e2: "failed s2 = failed s1" and e3: "failed s' = failed ?s3"
            by simp_all
          from rec[OF e2] have "recorded (reg ?s3) (url u)" by (simp only: r3)
          with g4 have "recorded (reg s') (url u)" by (rule grows_recorded)
          moreover from r4 a e3 have "\<forall>u\<in>set rest. recorded (reg s') (url u)" by simp
          ultimately show "\<forall>v\<in>set (u # rest). recorded (reg s') (url v)" by simp
        qed
        with g show ?thesis by simp
      qed
    qed
  qed
qed

lemma scrape_domain_queue_props:
  assumes "scrape_domain_queue w db cfg urls s = (res, s')"
  shows "grows (url ` set urls) s s'
   \<and> (res = Inr () \<and> failed s' = failed s \<longrightarrow> (\<forall>u\<in>set urls. recorded (reg s') (url u)))"
proof (cases urls)
  case Nil
  with assms have "s' = emit New_context s" "res = Inl IndexError"
    by (simp_all add: scrape_domain_queue_def Let_def)
  then show ?thesis using Nil by (simp add: grows_emit)
next
  case (Cons u0 rest)
  let ?s1 = "emit New_context s"
  let ?delay = "delay_seconds (get_site_config (url u0) cfg)"
  obtain r2 s2 where l: "domain_loop w db cfg urls ?delay urls ?s1 = (r2, s2)"
    by (cases "domain_loop w db cfg urls ?delay urls ?s1")
  from domain_loop_props[OF l] have g2: "grows (url ` set urls) ?s1 s2"
    and r2: "r2 = Inr () \<and> failed s2 = failed ?s1 \<longrightarrow> (\<forall>u\<in>set urls. recorded (reg s2) (url u))"
    by simp_all
  have g1: "grows {} s ?s1" by (simp add: grows_emit)
  show ?thesis
  proof (cases r2)
    case (Inl e)
    with assms Cons l have "s' = s2" "res = Inl e"
      by (simp_all add: scrape_domain_queue_def Let_def)
    with grows_trans[OF g1 g2] show ?thesis by simp
  next
    case (Inr x)
    with assms Cons l have s': "s' = emit Close_context s2" and "res = Inr ()"
      by (simp_all add: scrape_domain_queue_def Let_def)
    have g3: "grows {} s2 s'" unfolding s' by (simp add: grows_emit)
    from grows_trans[OF grows_trans[OF g1 g2] g3] have "grows (url ` set urls) s s'" by simp
    moreover have "failed s' = failed s \<longrightarrow> (\<forall>u\<in>set urls. recorded (reg s') (url u))"
      using r2 Inr s' by simp
    ultimately show ?thesis by simp
  qed
qed

lemma run_workers_props:
  "run_workers w db cfg groups s = (res, s') \<Longrightarrow>
   grows (url ` (\<Union>g\<in>set groups. set (snd g))) s s'
   \<and> (res = Inr () \<and> failed s' = failed s \<longrightarrow>
        (\<forall>u\<in>(\<Union>g\<in>set groups. set (snd g)). recorded (reg s') (url u)))"
proof (induction groups arbitrary: s)
  case Nil
  then show ?case by (simp add: grows_refl)
next
  case (Cons g groups)
  obtain d urls where g: "g = (d, urls)" by (cases g)
  obtain r1 s1 where q: "scrape_domain_queue w db cfg urls s = (r1, s1)"
    by (cases "scrape_domain_queue w db cfg urls s")
  from scrape_domain_queue_props[OF q] have g1: "grows (url ` set urls) s s1"
    and r1: "r1 = Inr () \<and> failed s1 = failed s \<longrightarrow> (\<forall>u\<in>set urls. recorded (reg s1) (url u))"
    by simp_all
  have sub: "url ` set urls \<subseteq> url ` (\<Union>g\<in>set ((d, urls) # groups). set (snd g))" by auto
  show ?case
  proof (cases r1)
    case (Inl e)
    with Cons.prems g q have "s' = s1" "res = Inl e" by simp_all
    with g1 sub g show ?thesis by (auto intro: grows_mono)
  next
    case (Inr x)
    with Cons.prems g q have rest: "run_workers w db cfg groups s1 = (res, s')" by simp
    from Cons.IH[OF rest] have g2: "grows (url ` (\<Union>g\<in>set groups. set (snd g))) s1 s'"
      and r2: "res = Inr () \<and> failed s' = failed s1 \<longrightarrow>
        (\<forall>u\<in>(\<Union>g\<in>set groups. set (snd g)). recorded (reg s') (url u))"
      by simp_all
    from grows_trans[OF g1 g2]
    have gg: "grows (url ` (\<Union>g\<in>set ((d, urls) # groups). set (snd g))) s s'"
      by (rule grows_mono) auto
    have "res = Inr () \<and> failed s' = failed s \<longrightarrow>
        (\<forall>u\<in>(\<Union>g\<in>set ((d, urls) # groups). set (snd g)). recorded (reg s') (url u))"
    proof
      assume a: "res = Inr () \<and> failed s' = failed s"
      have "failed s \<le> failed s1" "failed s1 \<le> failed s'"
        using g1 g2 by (auto dest: grows_failed)
      with a have e1: "failed s1 = failed s" and e2: "failed s' = failed s1" by simp_all
      from r1 Inr e1 have "\<forall>u\<in>set urls. recorded (reg s1) (url u)" by simp
      with g2 have "\<forall>u\<in>set urls. recorded (reg s') (url u)" by (auto dest: grows_recorded)
      moreover from r2 a e2 have "\<forall>u\<in>(\<Union>g\<in>set groups. set (snd g)). recorded (reg s') (url u)"
        by simp
      ultimately show "\<forall>u\<in>(\<Union>g\<in>set ((d, urls) # groups). set (snd g)). recorded (reg s') (url u)"
        by auto
    qed
    with gg g show ?thesis by simp
  qed
qed

lemma set_group_append:
  "(\<Union>g\<in>set (group_append d u gs). set (snd g)) = insert u (\<Union>g\<in>set gs. set (snd g))"
  by (induction d u gs rule: group_append.induct) auto

lemma set_group_foldl:
  "(\<Union>g\<in>set (foldl (\<lambda>g u. group_append (get_domain (url u)) u g) acc urls). set (snd g))
     = set urls \<union> (\<Union>g\<in>set acc. set (snd g))"
  by (induction urls arbitrary: acc) (auto simp: set_group_append)

lemma set_group_urls_by_domain:
  "(\<Union>g\<in>set (group_urls_by_domain urls). set (snd g)) = set urls"
  by (simp add: group_urls_by_domain_def set_group_foldl)

lemma set_slice_to: "set (slice_to xs n) \<subseteq> set xs"
  by (auto simp: slice_to_def dest: in_set_takeD)

lemma filter_new_urls_new: "u \<in> set (filter_new_urls cs r) \<Longrightarrow> \<not> recorded r (url u) \<and> u \<in> set cs"
  by (simp add: filter_new_urls_def recorded_def)

lemma filter_new_urls_Nil: "(filter_new_urls cs r = []) = (\<forall>u\<in>set cs. recorded r (url u))"
  by (auto simp: filter_new_urls_def recorded_def filter_empty_conv)

lemma run_unfold:
  assumes "load_registry (reg_file s) = Inr r"
    and "new = (case limit of None \<Rightarrow> filter_new_urls cs r
                | Some n \<Rightarrow> if n = 0 then filter_new_urls cs r
                            else slice_to (filter_new_urls cs r) n)"
  shows "run_scraper_async w db cfg cs dry limit s =
     (if dry \<or> new = [] then (Inr no_results, s)
      else (case run_workers w db cfg (group_urls_by_domain new)
                   (s\<lparr>reg := r, success := 0, failed := 0, failed_urls := []\<rparr>) of
              (Inl e, s1) \<Rightarrow> (Inl e, s1)
            | (Inr x, s1) \<Rightarrow>
                (Inr \<lparr>res_success = success s1, res_failed = failed s1,
                      res_failed_urls = failed_urls s1\<rparr>, s1)))"
  using assms by (simp add: run_scraper_async_def Let_def)

lemma run_props:
  assumes run: "run_scraper_async w db cfg cs dry limit s = (res, s')"
    and ld: "load_registry (reg_file s) = Inr r"
  shows "(\<exists>evs. trace s' = trace s @ evs
            \<and> (\<forall>v\<in>set (fetched evs). \<not> recorded r v \<and> v \<in> url ` set cs))
     \<and> (\<exists>r'. load_registry (reg_file s') = Inr r'
            \<and> (\<forall>v. recorded r v \<longrightarrow> recorded r' v)
            \<and> (\<not> dry \<and> limit = None \<and> (\<exists>rs. res = Inr rs \<and> res_failed rs = 0)
                 \<longrightarrow> (\<forall>u\<in>set cs. recorded r' (url u))))"
proof -
  let ?all = "filter_new_urls cs r"
  define new where "new = (case limit of None \<Rightarrow> ?all
                | Some n \<Rightarrow> if n = 0 then ?all else slice_to ?all n)"
  let ?s0 = "s\<lparr>reg := r, success := 0, failed := 0, failed_urls := []\<rparr>"
  note unf = run_unfold[OF ld new_def, of w db cfg dry]
  have sub: "set new \<subseteq> set ?all"
    using set_slice_to[of ?all] by (auto simp: new_def split: option.splits)
  have lim: "limit = None \<Longrightarrow> new = ?all" by (simp add: new_def)
  show ?thesis
  proof (cases "dry \<or> new = []")
    case True
    with run have same: "s' = s" "res = Inr no_results"
      by (simp_all add: unf)
    have "\<not> dry \<and> limit = None \<longrightarrow> (\<forall>u\<in>set cs. recorded r (url u))"
    proof
      assume "\<not> dry \<and> limit = None"
      with True lim have "?all = []" by simp
      then show "\<forall>u\<in>set cs. recorded r (url u)" by (simp only: filter_new_urls_Nil)
    qed
    with same ld show ?thesis by auto
  next
    case False
    obtain r1 s1 where wk: "run_workers w db cfg (group_urls_by_domain new) ?s0 = (r1, s1)"
      by (cases "run_workers w db cfg (group_urls_by_domain new) ?s0")
    from run_workers_props[OF wk]
    have g: "grows (url ` set new) ?s0 s1"
      and rec: "r1 = Inr () \<and> failed s1 = failed ?s0 \<longrightarrow> (\<forall>u\<in>set new. recorded (reg s1) (url u))"
      by (simp_all add: set_group_urls_by_domain)
    from run False wk have s': "s' = s1"
      and res: "res = (case r1 of Inl e \<Rightarrow> Inl e
          | Inr x \<Rightarrow> Inr \<lparr>res_success = success s1, res_failed = failed s1,
                            res_failed_urls = failed_urls s1\<rparr>)"
      by (auto simp: unf split: sum.splits)
    from g obtain evs where tr: "trace s1 = trace s @ evs"
      and fe: "set (fetched evs) \<subseteq> url ` set new" by (auto simp: grows_def)
    have "\<forall>v\<in>set (fetched evs). \<not> recorded r v \<and> v \<in> url ` set cs"
    proof
      fix v assume "v \<in> set (fetched evs)"
      with fe obtain u where "u \<in> set new" "v = url u" by auto
      with sub filter_new_urls_new[of u cs r] show "\<not> recorded r v \<and> v \<in> url ` set cs" by auto
    qed
    with tr s' have T: "\<exists>evs. trace s' = trace s @ evs
            \<and> (\<forall>v\<in>set (fetched evs). \<not> recorded r v \<and> v \<in> url ` set cs)" by blast
    from g ld have ld1: "load_registry (reg_file s1) = Inr (reg s1)"
      and keep: "\<forall>v. recorded r v \<longrightarrow> recorded (reg s1) v"
      by (simp_all add: grows_def)
    have "\<not> dry \<and> limit = None \<and> (\<exists>rs. res = Inr rs \<and> res_failed rs = 0)
                 \<longrightarrow> (\<forall>u\<in>set cs. recorded (reg s1) (url u))"
    proof
      assume a: "\<not> dry \<and> limit = None \<and> (\<exists>rs. res = Inr rs \<and> res_failed rs = 0)"
      with res have ok: "r1 = Inr ()" "failed s1 = 0" by (auto split: sum.splits)
      with rec a lim have nw: "\<forall>u\<in>set ?all. recorded (reg s1) (url u)" by simp
      show "\<forall>u\<in>set cs. recorded (reg s1) (url u)"
      proof
        fix u assume u: "u \<in> set cs"
        show "recorded (reg s1) (url u)"
        proof (cases "recorded r (url u)")
          case True with keep show ?thesis by simp
        next
          case False
          with u have "u \<in> set ?all" by (simp add: filter_new_urls_def recorded_def)
          with nw show ?thesis by simp
        qed
      qed
    qed
    with ld1 keep s' have "\<exists>r'. load_registry (reg_file s') = Inr r'
            \<and> (\<forall>v. recorded r v \<longrightarrow> recorded r' v)
            \<and> (\<not> dry \<and> limit = None \<and> (\<exists>rs. res = Inr rs \<and> res_failed rs = 0)
                 \<longrightarrow> (\<forall>u\<in>set cs. recorded r' (url u)))" by blast
    with T show ?thesis by simp
  qed
qed

lemma run_idle:
  assumes "load_registry (reg_file s) = Inr r" and "\<forall>u\<in>set cs. recorded r (url u)"
  shows "run_scraper_async w db cfg cs dry limit s = (Inr no_results, s)"
proof -
  from assms(2) have "filter_new_urls cs r = []" by (simp add: filter_new_urls_Nil)
  with assms(1) show ?thesis
    by (simp add: run_scraper_async_def Let_def slice_to_def split: option.splits)
qed

lemma run_loaded:
  "run_scraper_async w db cfg cs dry limit s = (Inr rs, s') \<Longrightarrow> \<exists>r. load_registry (reg_file s) = Inr r"
  by (cases "load_registry (reg_file s)") (auto simp: run_scraper_async_def)

lemma worker_fetches_within:
  "\<exists>evs. trace (snd (scrape_domain_queue w db cfg urls s)) = trace s @ evs
      \<and> set (fetched evs) \<subseteq> url ` set urls"
  using scrape_domain_queue_props[of w db cfg urls s "fst (scrape_domain_queue w db cfg urls s)"
      "snd (scrape_domain_queue w db cfg urls s)"]
  by (simp add: grows_def)

lemma filter_new_urls_keeps:
  "u \<in> set cs \<Longrightarrow> \<not> recorded r (url u) \<Longrightarrow> u \<in> set (filter_new_urls cs r)"
  by (simp add: filter_new_urls_def recorded_def)

text \<open>
  C8 (amended): let a first run on the candidates \<open>cs\<close>, not a dry run and with no limit,
  return its results.
  Then the registry file it leaves decodes to a registry, and a second run on the same
  candidates from the state the first run left, whatever the network does, makes no fetch
  attempt for a URL recorded in that registry: such candidates are filtered out before
  fetching, and a worker of the second run, whatever part of the new URLs is its queue and
  whatever state it starts in, fetches URLs of its queue only.  When the first run counted
  no failure, every candidate is recorded, and the second run returns
  \<^verbatim>\<open>success = 0, failed = 0\<close> and leaves the state as it is: no event, no new archive
  directory, no new registry entry.  A candidate whose URL is not recorded after the first
  run is not filtered out: \<^verbatim>\<open>filter_new_urls\<close> keeps it on the second run.
\<close>

theorem second_run_dedup:
  assumes first: "run_scraper_async w1 db cfg cs False None s = (Inr rs, s1)"
  shows "\<exists>r1. load_registry (reg_file s1) = Inr r1
     \<and> (\<exists>evs. trace (snd (run_scraper_async w2 db cfg cs dry limit s1)) = trace s1 @ evs
            \<and> (\<forall>v\<in>set (fetched evs). \<not> recorded r1 v))
     \<and> (set urls \<subseteq> set (filter_new_urls cs r1) \<longrightarrow>
          (\<exists>evs. trace (snd (scrape_domain_queue w3 db cfg urls s3)) = trace s3 @ evs
             \<and> (\<forall>v\<in>set (fetched evs). \<not> recorded r1 v)))
     \<and> (res_failed rs = 0 \<longrightarrow>
          (\<forall>u\<in>set cs. recorded r1 (url u))
          \<and> run_scraper_async w2 db cfg cs dry limit s1 = (Inr no_results, s1))
     \<and> (\<forall>u\<in>set cs. \<not> recorded r1 (url u) \<longrightarrow> u \<in> set (filter_new_urls cs r1))"
proof -
  from run_loaded[OF first] obtain r0 where ld0: "load_registry (reg_file s) = Inr r0" ..
  from run_props[OF first ld0] obtain r1 where ld1: "load_registry (reg_file s1) = Inr r1"
    and all: "res_failed rs = 0 \<longrightarrow> (\<forall>u\<in>set cs. recorded r1 (url u))"
    by auto
  obtain res2 s2 where second: "run_scraper_async w2 db cfg cs dry limit s1 = (res2, s2)"
    by (cases "run_scraper_async w2 db cfg cs dry limit s1")
  from run_props[OF second ld1] obtain evs where "trace s2 = trace s1 @ evs"
    and "\<forall>v\<in>set (fetched evs). \<not> recorded r1 v" by auto
  with second have tr: "\<exists>evs. trace (snd (run_scraper_async w2 db cfg cs dry limit s1)) = trace s1 @ evs
            \<and> (\<forall>v\<in>set (fetched evs). \<not> recorded r1 v)" by auto
  have wk: "set urls \<subseteq> set (filter_new_urls cs r1) \<longrightarrow>
          (\<exists>evs. trace (snd (scrape_domain_queue w3 db cfg urls s3)) = trace s3 @ evs
             \<and> (\<forall>v\<in>set (fetched evs). \<not> recorded r1 v))"
  proof
    assume sub: "set urls \<subseteq> set (filter_new_urls cs r1)"
    from worker_fetches_within[of w3 db cfg urls s3] obtain evs where
      t: "trace (snd (scrape_domain_queue w3 db cfg urls s3)) = trace s3 @ evs"
      and f: "set (fetched evs) \<subseteq> url ` set urls" by blast
    have "\<forall>v\<in>set (fetched evs). \<not> recorded r1 v"
    proof
      fix v assume "v \<in> set (fetched evs)"
      with f obtain u where "u \<in> set urls" "v = url u" by auto
      with sub filter_new_urls_new[of u cs r1] show "\<not> recorded r1 v" by auto
    qed
    with t show "\<exists>evs. trace (snd (scrape_domain_queue w3 db cfg urls s3)) = trace s3 @ evs
             \<and> (\<forall>v\<in>set (fetched evs). \<not> recorded r1 v)" by blast
  qed
  have idle: "res_failed rs = 0 \<longrightarrow>
          (\<forall>u\<in>set cs. recorded r1 (url u))
          \<and> run_scraper_async w2 db cfg cs dry limit s1 = (Inr no_results, s1)"
    using all run_idle[OF ld1, of cs w2 db cfg dry limit] by simp
  have keep: "\<forall>u\<in>set cs. \<not> recorded r1 (url u) \<longrightarrow> u \<in> set (filter_new_urls cs r1)"
    by (simp add: filter_new_urls_keeps)
  from ld1 tr wk idle keep show ?thesis by (intro exI[of _ r1] conjI)
qed

lemma content_first_attempt:
  assumes c: "attempt w (tick s) = Content html" and l: "500 \<le> length html"
    and d: "\<not> str_contains (ustr ''inmediahk.net'') (url u)"
  shows "scrape_url_async w cfg u 0 b s =
     (Inr (html, True), advance 1 [New_page, Fetch Domcontentloaded (url u), Close_page] s)"
proof -
  from strategies_default[OF d] have st: "select_strategy (url u) 0 = Domcontentloaded" by simp
  have nr: "\<not> retryable (attempt w (tick s))" using c l by simp
  have np: "\<forall>m. attempt w (tick s) \<noteq> No_page m" using c by simp
  from terminal_step[OF st _ _ nr np, where cfg=cfg and b=b] c show ?thesis
    by (simp add: Let_def release_advance)
qed

lemma success_run_single:
  assumes ld: "load_registry (reg_file s) = Inr r" and new: "\<not> recorded r (url u)"
    and c: "attempt w (tick s) = Content html" and l: "500 \<le> length html"
    and d: "\<not> str_contains (ustr ''inmediahk.net'') (url u)"
    and sd: "find_source_dir db (news_dirs w) (source u) = Some sd"
  shows "fst (run_scraper_async w db cfg [u] False None s)
           = Inr \<lparr>res_success = 1, res_failed = 0, res_failed_urls = []\<rparr>
     \<and> recorded (reg (snd (run_scraper_async w db cfg [u] False None s))) (url u)
     \<and> dirs (snd (run_scraper_async w db cfg [u] False None s))
         = snd (save_archive db u html sd (clock w (Suc (tick s))) (dirs s))
     \<and> reg_file (snd (run_scraper_async w db cfg [u] False None s))
         = Json_file (reg (snd (run_scraper_async w db cfg [u] False None s)))"
proof -
  let ?s0 = "emit New_context (s\<lparr>reg := r, success := 0, failed := 0, failed_urls := []\<rparr>)"
  let ?s1 = "advance 1 [New_page, Fetch Domcontentloaded (url u), Close_page] ?s0"
  have nw: "filter_new_urls [u] r = [u]" using new by (simp add: filter_new_urls_def recorded_def)
  have "attempt w (tick ?s0) = Content html" using c by simp
  from content_first_attempt[OF this l d, of cfg True]
  have f: "scrape_url_async w cfg u 0 True ?s0 = (Inr (html, True), ?s1)" .
  have ne: "html \<noteq> []" using l by auto
  obtain s2 where a: "archive_and_record w db u html ?s1 = Inr s2"
    using sd by (simp add: archive_and_record_def Let_def)
  from a sd have s2: "success s2 = 1" "failed s2 = 0" "failed_urls s2 = []"
    "recorded (reg s2) (url u)" "reg_file s2 = Json_file (reg s2)"
    "dirs s2 = snd (save_archive db u html sd (clock w (Suc (tick s))) (dirs s))"
    by (auto simp: archive_and_record_def Let_def save_registry_def recorded_def update_conv')
  have "domain_loop w db cfg [u] (delay_seconds (get_site_config (url u) cfg)) [u] ?s0 = (Inr (), s2)"
    using f ne a by simp
  then have "run_scraper_async w db cfg [u] False None s =
      (Inr \<lparr>res_success = success (emit Close_context s2),
            res_failed = failed (emit Close_context s2),
            res_failed_urls = failed_urls (emit Close_context s2)\<rparr>, emit Close_context s2)"
    using ld nw
    by (simp add: run_scraper_async_def group_single scrape_domain_queue_def Let_def)
  with s2 show ?thesis by simp
qed

lemma scenario_facts:
  "\<not> str_contains (ustr ''inmediahk.net'') (url cand_x)"
  "find_source_dir ascii_db (news_dirs (world_of f)) (source cand_x) = Some (ustr ''bbc'')"
  "slugify ascii_db (title cand_x) 80 = ustr ''foo''"
  "500 \<le> length long_page"
  "load_registry (reg_file start_state) = Inr empty_registry"
  "\<not> recorded empty_registry (url cand_x)"
  "tick start_state = 0" "dirs start_state = []" "reg_file start_state = No_file"
proof -
  show "\<not> str_contains (ustr ''inmediahk.net'') (url cand_x)" by code_simp
  show "slugify ascii_db (title cand_x) 80 = ustr ''foo''" by code_simp
  have "find_source_dir ascii_db [ustr ''bbc'', ustr ''inmediahk''] (source cand_x) = Some (ustr ''bbc'')"
    by code_simp
  then show "find_source_dir ascii_db (news_dirs (world_of f)) (source cand_x) = Some (ustr ''bbc'')"
    by (simp add: world_of_def)
  show "500 \<le> length long_page" by (simp add: long_page_def)
  show "load_registry (reg_file start_state) = Inr empty_registry" by (simp add: start_state_def)
  show "\<not> recorded empty_registry (url cand_x)" by (simp add: recorded_def empty_registry_def)
  show "tick start_state = 0" "dirs start_state = []" "reg_file start_state = No_file"
    by (simp_all add: start_state_def)
qed

text \<open>
  The candidate \<^verbatim>\<open>https://a.example/x\<close> is fetched and archived by the first run, and the
  second run does nothing; after a first run in which its fetch failed, \<^verbatim>\<open>filter_new_urls\<close>
  keeps it.
\<close>

theorem second_run_dedup_witness:
  "fst (run_scraper_async (world_of (\<lambda>n. Content long_page)) ascii_db default_config
          [cand_x] False None start_state)
     = Inr \<lparr>res_success = 1, res_failed = 0, res_failed_urls = []\<rparr>
   \<and> run_scraper_async (world_of (\<lambda>n. Content long_page)) ascii_db default_config
          [cand_x] False None
          (snd (run_scraper_async (world_of (\<lambda>n. Content long_page)) ascii_db default_config
                  [cand_x] False None start_state))
     = (Inr no_results,
        snd (run_scraper_async (world_of (\<lambda>n. Content long_page)) ascii_db default_config
               [cand_x] False None start_state))
   \<and> fst (run_scraper_async (world_of (\<lambda>n. Failure (ustr ''Download is starting''))) ascii_db
          default_config [cand_x] False None start_state)
     = Inr \<lparr>res_success = 0, res_failed = 1, res_failed_urls = [url cand_x]\<rparr>
   \<and> \<not> recorded empty_registry (url cand_x)
   \<and> cand_x \<in> set (filter_new_urls [cand_x] empty_registry)"
proof -
  let ?w = "world_of (\<lambda>n. Content long_page)"
  let ?run1 = "run_scraper_async ?w ascii_db default_config [cand_x] False None start_state"
  have c: "attempt ?w (tick start_state) = Content long_page" by (simp add: world_of_def)
  from success_run_single[OF scenario_facts(5) scenario_facts(6) c scenario_facts(4)
      scenario_facts(1) scenario_facts(2), of default_config]
  have e: "fst ?run1 = Inr \<lparr>res_success = 1, res_failed = 0, res_failed_urls = []\<rparr>" by simp
  then have first: "?run1 = (Inr \<lparr>res_success = 1, res_failed = 0, res_failed_urls = []\<rparr>, snd ?run1)"
    by (simp add: prod_eq_iff)
  from second_run_dedup[OF first, of ?w False None] e
  have idle: "run_scraper_async ?w ascii_db default_config [cand_x] False None (snd ?run1)
      = (Inr no_results, snd ?run1)" by auto
  let ?wf = "world_of (\<lambda>n. Failure (ustr ''Download is starting''))"
  let ?runf = "run_scraper_async ?wf ascii_db default_config [cand_x] False None start_state"
  have dl: "attempt ?wf (tick start_state) = Failure (ustr ''Download is starting'')"
    by (simp add: world_of_def)
  have msg: "str_contains (ustr ''Download is starting'') (ustr ''Download is starting'')"
    by code_simp
  have nr: "map_of (scraped_urls empty_registry) (url cand_x) = None"
    by (simp add: empty_registry_def)
  note r1 = download_run[OF dl msg scenario_facts(5) nr, of ascii_db default_config]
  have a: "fst ?runf = Inr \<lparr>res_success = 0, res_failed = 1, res_failed_urls = [url cand_x]\<rparr>"
    and d: "reg_file (snd ?runf) = No_file"
    by (simp_all add: r1 scenario_facts)
  from a have firstf: "?runf
      = (Inr \<lparr>res_success = 0, res_failed = 1, res_failed_urls = [url cand_x]\<rparr>, snd ?runf)"
    by (simp add: prod_eq_iff)
  from second_run_dedup[OF firstf, of ?w False None "[]" ?w start_state]
  obtain r where ld: "load_registry (reg_file (snd ?runf)) = Inr r"
    and keep: "\<forall>u\<in>set [cand_x]. \<not> recorded r (url u) \<longrightarrow> u \<in> set (filter_new_urls [cand_x] r)"
    by blast
  from ld d have r: "r = empty_registry" by simp
  from keep scenario_facts(6) have k: "cand_x \<in> set (filter_new_urls [cand_x] empty_registry)"
    unfolding r by simp
  from e idle a scenario_facts(6) k show ?thesis by simp
qed

text \<open>
  C8 (as stated: a second run on the same candidates and the registry of the first run
  creates no archive directory and no registry entry).  On the first run the fetch of the
  candidate \<^verbatim>\<open>https://a.example/x\<close> fails, so the run records nothing; on the second run its
  fetch succeeds, and that run creates the directory \<^verbatim>\<open>foo\<close> and the registry entry.
\<close>

theorem failed_url_fetched_again:
  "fst (run_scraper_async (world_of (\<lambda>n. Failure (ustr ''Download is starting''))) ascii_db
          default_config [cand_x] False None start_state)
     = Inr \<lparr>res_success = 0, res_failed = 1, res_failed_urls = [url cand_x]\<rparr>
   \<and> \<not> recorded (reg (snd (run_scraper_async
          (world_of (\<lambda>n. Failure (ustr ''Download is starting''))) ascii_db
          default_config [cand_x] False None start_state))) (url cand_x)
   \<and> \<not> dir_exists (dirs (snd (run_scraper_async
          (world_of (\<lambda>n. Failure (ustr ''Download is starting''))) ascii_db
          default_config [cand_x] False None start_state))) (ustr ''bbc'', ustr ''foo'')
   \<and> fst (run_scraper_async (world_of (\<lambda>n. Content long_page)) ascii_db default_config
          [cand_x] False None
          (snd (run_scraper_async (world_of (\<lambda>n. Failure (ustr ''Download is starting'')))
                  ascii_db default_config [cand_x] False None start_state)))
     = Inr \<lparr>res_success = 1, res_failed = 0, res_failed_urls = []\<rparr>
   \<and> recorded (reg (snd (run_scraper_async (world_of (\<lambda>n. Content long_page)) ascii_db
          default_config [cand_x] False None
          (snd (run_scraper_async (world_of (\<lambda>n. Failure (ustr ''Download is starting'')))
                  ascii_db default_config [cand_x] False None start_state))))) (url cand_x)
   \<and> dir_exists (dirs (snd (run_scraper_async (world_of (\<lambda>n. Content long_page)) ascii_db
          default_config [cand_x] False None
          (snd (run_scraper_async (world_of (\<lambda>n. Failure (ustr ''Download is starting'')))
                  ascii_db default_config [cand_x] False None start_state)))))
        (ustr ''bbc'', ustr ''foo'')"
proof -
  let ?wf = "world_of (\<lambda>n. Failure (ustr ''Download is starting''))"
  let ?wc = "world_of (\<lambda>n. Content long_page)"
  let ?run1 = "run_scraper_async ?wf ascii_db default_config [cand_x] False None start_state"
  let ?s1 = "snd ?run1"
  let ?run2 = "run_scraper_async ?wc ascii_db default_config [cand_x] False None ?s1"
  have dl: "attempt ?wf (tick start_state) = Failure (ustr ''Download is starting'')"
    by (simp add: world_of_def)
  have msg: "str_contains (ustr ''Download is starting'') (ustr ''Download is starting'')"
    by code_simp
  have nr: "map_of (scraped_urls empty_registry) (url cand_x) = None"
    by (simp add: empty_registry_def)
  note r1 = download_run[OF dl msg scenario_facts(5) nr, of ascii_db default_config]
  have a: "fst ?run1 = Inr \<lparr>res_success = 0, res_failed = 1, res_failed_urls = [url cand_x]\<rparr>"
    and b: "reg ?s1 = empty_registry" and c: "dirs ?s1 = []" and d: "reg_file ?s1 = No_file"
    and t: "tick ?s1 = 1"
    by (simp_all add: r1 scenario_facts)
  have ld: "load_registry (reg_file ?s1) = Inr empty_registry" by (simp add: d)
  have at: "attempt ?wc (tick ?s1) = Content long_page" by (simp add: world_of_def)
  from success_run_single[OF ld scenario_facts(6) at scenario_facts(4) scenario_facts(1)
      scenario_facts(2), of default_config]
  have e: "fst ?run2 = Inr \<lparr>res_success = 1, res_failed = 0, res_failed_urls = []\<rparr>"
    and f: "recorded (reg (snd ?run2)) (url cand_x)"
    and g: "dirs (snd ?run2)
        = snd (save_archive ascii_db cand_x long_page (ustr ''bbc'') (clock ?wc (Suc (tick ?s1))) (dirs ?s1))"
    by simp_all
  have fr: "\<not> dir_exists [] (ustr ''bbc'', slugify ascii_db (title cand_x) 80)"
    by (simp add: dir_exists_def)
  have h: "dir_exists (dirs (snd ?run2)) (ustr ''bbc'', ustr ''foo'')"
    unfolding g c save_archive_fresh[OF fr]
    by (simp add: dir_exists_write_article scenario_facts(3))
  have i: "\<not> dir_exists (dirs ?s1) (ustr ''bbc'', ustr ''foo'')" by (simp add: c dir_exists_def)
  have j: "\<not> recorded (reg ?s1) (url cand_x)" by (simp add: b scenario_facts)
  from a j i e f h show ?thesis by simp
qed

end
